theory Spec2Isabelle
  imports Complex_Main
begin

text \<open>
  A shallow embedding of the retrieval servers of \<open>main.js\<close>: the sentence segmenter, cosine
  similarity and the similarity-driven chunker, the embedding client, and the ingestion
  and query handlers of the first server (\<open>/index\<close>, \<open>/query\<close>) and of the third
  (\<open>/upload\<close>, \<open>/chat\<close>). The second program text of \<open>main.js\<close>, a server that chunks by
  word count, is not part of this development. A handler runs to its end without
  interleaving with another request.
\<close>

section \<open>JavaScript numbers\<close>

text \<open>
  The vectors the servers compare hold JavaScript numbers, IEEE 754 doubles. A finite
  double is modelled by the real it denotes, next to the three special values. An
  arithmetic operation on finite numbers is the exact operation followed by rounding to
  the nearest double, ties to the even significand (\<open>rnd\<close>): the unit in the last place at
  \<open>x\<close> is \<open>2\<close> to the power \<open>quantum_exp x\<close>, so that small results lose
  precision and underflow to zero, and a result that rounds to \<open>2 ^ 1024\<close> or beyond
  overflows to an infinity. No operation raises; \<open>0 / 0\<close> and every operation on \<open>NaN\<close> give
  \<open>NaN\<close>, and every comparison with \<open>NaN\<close> is false.

  The two zeros are one value here. Nothing in \<open>cosineSimilarity\<close> tells them apart: its
  only divisor is a product of square roots of sums that start at \<open>+0\<close> and add squares, so
  a zero divisor is \<open>+0\<close>, and \<open>>=\<close> compares the two zeros as equal.
\<close>

datatype jsnum = NaN | Fin real | PInf | NInf

definition round_half_even :: "real \<Rightarrow> int" where
  "round_half_even y =
     (if y - of_int \<lfloor>y\<rfloor> < 1 / 2 then \<lfloor>y\<rfloor>
      else if 1 / 2 < y - of_int \<lfloor>y\<rfloor> then \<lfloor>y\<rfloor> + 1
      else if even \<lfloor>y\<rfloor> then \<lfloor>y\<rfloor> else \<lfloor>y\<rfloor> + 1)"

text \<open>The exponent of the unit in the last place of a double next to \<open>x\<close>: 53 bits of
  significand for a normal number, the fixed exponent \<open>-1074\<close> for a subnormal one.\<close>

definition quantum_exp :: "real \<Rightarrow> int" where
  "quantum_exp x = max (\<lfloor>log 2 \<bar>x\<bar>\<rfloor> - 52) (- 1074)"

definition rnd :: "real \<Rightarrow> jsnum" where
  "rnd x =
     (if x = 0 then Fin 0
      else (let q = 2 powr of_int (quantum_exp x);
                r = of_int (round_half_even (x / q)) * q
            in if 2 ^ 1024 \<le> r then PInf
               else if r \<le> - (2 ^ 1024) then NInf
               else Fin r))"

fun js_add :: "jsnum \<Rightarrow> jsnum \<Rightarrow> jsnum" where
  "js_add NaN _ = NaN"
| "js_add _ NaN = NaN"
| "js_add (Fin a) (Fin b) = rnd (a + b)"
| "js_add PInf NInf = NaN"
| "js_add NInf PInf = NaN"
| "js_add PInf _ = PInf"
| "js_add _ PInf = PInf"
| "js_add NInf _ = NInf"
| "js_add _ NInf = NInf"

fun js_neg :: "jsnum \<Rightarrow> jsnum" where
  "js_neg NaN = NaN"
| "js_neg (Fin a) = Fin (- a)"
| "js_neg PInf = NInf"
| "js_neg NInf = PInf"

fun js_mul :: "jsnum \<Rightarrow> jsnum \<Rightarrow> jsnum" where
  "js_mul NaN _ = NaN"
| "js_mul _ NaN = NaN"
| "js_mul (Fin a) (Fin b) = rnd (a * b)"
| "js_mul (Fin a) y = (if a = 0 then NaN else if 0 < a then y else js_neg y)"
| "js_mul x (Fin b) = (if b = 0 then NaN else if 0 < b then x else js_neg x)"
| "js_mul PInf y = y"
| "js_mul NInf y = js_neg y"

fun js_sqrt :: "jsnum \<Rightarrow> jsnum" where
  "js_sqrt NaN = NaN"
| "js_sqrt (Fin a) = (if a < 0 then NaN else rnd (sqrt a))"
| "js_sqrt PInf = PInf"
| "js_sqrt NInf = NaN"

text \<open>\<open>Math.sqrt\<close> above is the correctly rounded square root. Division by zero gives an
  infinity with the sign of the dividend, or \<open>NaN\<close> for \<open>0 / 0\<close>.\<close>

fun js_div :: "jsnum \<Rightarrow> jsnum \<Rightarrow> jsnum" where
  "js_div NaN _ = NaN"
| "js_div _ NaN = NaN"
| "js_div (Fin a) (Fin b) =
     (if b = 0 then (if a = 0 then NaN else if 0 < a then PInf else NInf)
      else rnd (a / b))"
| "js_div (Fin a) _ = Fin 0"
| "js_div x (Fin b) = (if 0 \<le> b then x else js_neg x)"
| "js_div _ _ = NaN"

text \<open>The comparison \<open>x >= y\<close>, and \<open>x < y\<close>.\<close>

fun js_ge :: "jsnum \<Rightarrow> jsnum \<Rightarrow> bool" where
  "js_ge NaN _ = False"
| "js_ge _ NaN = False"
| "js_ge (Fin a) (Fin b) = (b \<le> a)"
| "js_ge PInf _ = True"
| "js_ge _ NInf = True"
| "js_ge _ _ = False"

fun js_lt :: "jsnum \<Rightarrow> jsnum \<Rightarrow> bool" where
  "js_lt NaN _ = False"
| "js_lt _ NaN = False"
| "js_lt (Fin a) (Fin b) = (a < b)"
| "js_lt PInf _ = False"
| "js_lt _ NInf = False"
| "js_lt _ _ = True"

type_synonym vec = "jsnum list"

text \<open>\<open>v[i]\<close> on an array of numbers used as an operand: out of range it is
  \<open>undefined\<close>, which arithmetic turns into \<open>NaN\<close>.\<close>

definition js_nth :: "vec \<Rightarrow> nat \<Rightarrow> jsnum" where
  "js_nth v i = (if i < length v then v ! i else NaN)"

section \<open>Cosine similarity\<close>

text \<open>\<open>Array.prototype.reduce\<close> with an initial value is a left fold; the callback
  of the dot product also reads the index.\<close>

fun reduce_idx :: "('s \<Rightarrow> 'a \<Rightarrow> nat \<Rightarrow> 's) \<Rightarrow> 'a list \<Rightarrow> nat \<Rightarrow> 's \<Rightarrow> 's" where
  "reduce_idx f [] i acc = acc"
| "reduce_idx f (x # xs) i acc = reduce_idx f xs (Suc i) (f acc x i)"

definition dotProduct :: "vec \<Rightarrow> vec \<Rightarrow> jsnum" where
  "dotProduct vecA vecB =
     reduce_idx (\<lambda>sum a i. js_add sum (js_mul a (js_nth vecB i))) vecA 0 (Fin 0)"

definition magnitude :: "vec \<Rightarrow> jsnum" where
  "magnitude v = js_sqrt (reduce_idx (\<lambda>sum a i. js_add sum (js_mul a a)) v 0 (Fin 0))"

definition cosineSimilarity :: "vec \<Rightarrow> vec \<Rightarrow> jsnum" where
  "cosineSimilarity vecA vecB =
     js_div (dotProduct vecA vecB) (js_mul (magnitude vecA) (magnitude vecB))"

section \<open>Sentence segmentation\<close>

text \<open>
  Texts are strings of code units; the model takes the code units below 256. The
  sentence terminators are \<open>.\<close>, \<open>!\<close> and \<open>?\<close>; \<open>trim\<close> removes JavaScript's white space
  and line terminators, which below 256 are TAB, LF, VT, FF, CR, SPACE and NBSP.
\<close>

definition is_terminator :: "char \<Rightarrow> bool" where
  "is_terminator c = (c = CHR ''.'' \<or> c = CHR ''!'' \<or> c = CHR ''?'')"

definition is_space :: "char \<Rightarrow> bool" where
  "is_space c = (c = CHR 0x09 \<or> c = CHR 0x0A \<or> c = CHR 0x0B \<or> c = CHR 0x0C \<or>
                 c = CHR 0x0D \<or> c = CHR 0x20 \<or> c = CHR 0xA0)"

text \<open>
  \<open>text.match(/[^.!?]+[.!?]+/g)\<close>: all matches, left to right. At a terminator nothing
  matches and the scan moves on by one code unit. At any other code unit the first group
  takes the whole run up to the next terminator; when the run reaches the end of the text
  there is no match there nor anywhere later, otherwise the match is the run and all the
  terminators that follow it, and the scan goes on behind them.
\<close>

function sentence_matches :: "string \<Rightarrow> string list" where
  "sentence_matches s =
     (if s = [] then []
      else if takeWhile (\<lambda>c. \<not> is_terminator c) s = [] then sentence_matches (tl s)
      else if dropWhile (\<lambda>c. \<not> is_terminator c) s = [] then []
      else (takeWhile (\<lambda>c. \<not> is_terminator c) s @
              takeWhile is_terminator (dropWhile (\<lambda>c. \<not> is_terminator c) s))
           # sentence_matches (dropWhile is_terminator (dropWhile (\<lambda>c. \<not> is_terminator c) s)))"
  by pat_completeness auto
termination
proof (relation "measure length")
  show "wf (measure length)" by simp
next
  fix s :: string
  assume "s \<noteq> []"
  then show "(tl s, s) \<in> measure length" by (cases s) simp_all
next
  fix s :: string
  assume "takeWhile (\<lambda>c. \<not> is_terminator c) s \<noteq> []"
  then have "length (dropWhile (\<lambda>c. \<not> is_terminator c) s) < length s"
    by (cases s) (auto simp: less_Suc_eq_le length_dropWhile_le split: if_splits)
  moreover have "length (dropWhile is_terminator (dropWhile (\<lambda>c. \<not> is_terminator c) s))
      \<le> length (dropWhile (\<lambda>c. \<not> is_terminator c) s)"
    by (rule length_dropWhile_le)
  ultimately
  show "(dropWhile is_terminator (dropWhile (\<lambda>c. \<not> is_terminator c) s), s) \<in> measure length"
    by simp
qed

declare sentence_matches.simps [simp del]

definition trim :: "string \<Rightarrow> string" where
  "trim s = rev (dropWhile is_space (rev (dropWhile is_space s)))"

text \<open>The first two lines of \<open>semanticChunking\<close>: \<open>match\<close> gives \<open>null\<close> when nothing
  matches, and then the whole text is the only sentence.\<close>

definition cleanSentences :: "string \<Rightarrow> string list" where
  "cleanSentences txt =
     (let sentences = (if sentence_matches txt = [] then [txt] else sentence_matches txt)
      in filter (\<lambda>s. s \<noteq> []) (map trim sentences))"

section \<open>The chunking loop\<close>

datatype error =
    EmbeddingFailure string
  | StoreFailure string
  | GenerationFailure string
  | FsFailure string
  | TypeError string

fun message :: "error \<Rightarrow> string" where
  "message (EmbeddingFailure m) = m"
| "message (StoreFailure m) = m"
| "message (GenerationFailure m) = m"
| "message (FsFailure m) = m"
| "message (TypeError m) = m"

definition undefined_read :: error where
  "undefined_read = TypeError ''Cannot read properties of undefined''"

record loop_state =
  chunks :: "string list"
  currentChunk :: string
  currentVec :: vec

text \<open>
  One pass of the \<open>for\<close> loop, at index \<open>i\<close> with sentence \<open>cleanSentences[i]\<close>. When the
  service gave fewer vectors than there are sentences, \<open>vecs[i]\<close> is \<open>undefined\<close> and
  \<open>cosineSimilarity\<close> throws on reading it.
\<close>

definition loop_body :: "jsnum \<Rightarrow> vec list \<Rightarrow> nat \<Rightarrow> string \<Rightarrow> loop_state \<Rightarrow> error + loop_state" where
  "loop_body threshold vecs i sentence st =
     (if i < length vecs then
        (let sim = cosineSimilarity (currentVec st) (vecs ! i) in
         if js_ge sim threshold then
           Inr (st\<lparr>currentChunk := currentChunk st @ '' '' @ sentence\<rparr>)
         else
           Inr \<lparr>chunks = chunks st @ [currentChunk st],
                currentChunk = sentence,
                currentVec = vecs ! i\<rparr>)
      else Inl undefined_read)"

fun chunk_loop :: "jsnum \<Rightarrow> vec list \<Rightarrow> nat \<Rightarrow> string list \<Rightarrow> loop_state \<Rightarrow> error + loop_state" where
  "chunk_loop threshold vecs i [] st = Inr st"
| "chunk_loop threshold vecs i (sentence # rest) st =
     (case loop_body threshold vecs i sentence st of
        Inl err \<Rightarrow> Inl err
      | Inr st' \<Rightarrow> chunk_loop threshold vecs (Suc i) rest st')"

text \<open>
  The reply of the embedding service: an array of numbers or an array of arrays of
  numbers. \<open>Array.isArray(embeddings[0]) ? embeddings : [embeddings]\<close> wraps a reply
  whose first item is not an array, the empty reply too.
\<close>

datatype embresp = Flat vec | Nested "vec list"

fun vecs_of :: "embresp \<Rightarrow> vec list" where
  "vecs_of (Flat v) = [v]"
| "vecs_of (Nested []) = [[]]"
| "vecs_of (Nested (v # vs)) = v # vs"

text \<open>
  \<open>semanticChunking\<close> from \<open>const chunks = []\<close> on. The two cases the function never
  reaches (no sentence, no vector) do what the statements do there: \<open>cleanSentences[0]\<close>
  and \<open>vecs[0]\<close> are \<open>undefined\<close>.
\<close>

definition merge_sentences :: "string list \<Rightarrow> vec list \<Rightarrow> jsnum \<Rightarrow> error + string list" where
  "merge_sentences sentences vecs threshold =
     (case sentences of
        [] \<Rightarrow> Inr []
      | s0 # rest \<Rightarrow>
          (case vecs of
             [] \<Rightarrow> (if rest = [] then Inr (if s0 \<noteq> [] then [s0] else [])
                    else Inl undefined_read)
           | v0 # _ \<Rightarrow>
               (case chunk_loop threshold vecs 1 rest
                       \<lparr>chunks = [], currentChunk = s0, currentVec = v0\<rparr> of
                  Inl err \<Rightarrow> Inl err
                | Inr st \<Rightarrow>
                    Inr (if currentChunk st \<noteq> [] then chunks st @ [currentChunk st]
                         else chunks st))))"

section \<open>The servers' data\<close>

record metadata =
  source :: string
  part :: nat
  ctx :: string

text \<open>An item of the embedding reply read by position, \<open>embeddings[i]\<close>: a number of a
  flat reply, a vector of a nested one, \<open>undefined\<close> out of range.\<close>

datatype embedding = Undefined | Scalar jsnum | Vector vec

fun items :: "embresp \<Rightarrow> embedding list" where
  "items (Flat v) = map Scalar v"
| "items (Nested vs) = map Vector vs"

definition item_at :: "embresp \<Rightarrow> nat \<Rightarrow> embedding" where
  "item_at r i = (if i < length (items r) then items r ! i else Undefined)"

text \<open>A chunk staged for the index, \<open>{text, metadata}\<close> and later \<open>embedding\<close>; the field
  \<open>text\<close> is named \<open>chunk_text\<close> here.\<close>

record chunk =
  chunk_text :: string
  metadata :: metadata
  embedding :: embedding

record staged_file =
  path :: string
  originalname :: string

text \<open>An ingestion request: the uploaded files as multer staged them (\<open>req.files\<close>, which
  may be missing) and the \<open>context\<close> header. A query request: the fields of the JSON body.\<close>

record ingest_request =
  files :: "staged_file list option"
  context_header :: "string option"

record query_request =
  body_q :: "string option"
  body_k :: "nat option"
  body_c :: "string option"

record query_result =
  documents :: "string list"
  metadatas :: "metadata list"

datatype body =
    Error string
  | Ok string
  | Answer string "(string \<times> metadata option) list"

datatype response = Response (status: nat) (body: body)

text \<open>
  The calls a server makes to its collaborators: the embedding service, the vector store
  (a call on a collection names the collection first) and the generation service.
\<close>

datatype call =
    FeatureExtraction "string list"
  | GetOrCreateCollection string
  | Upsert string "string list" "string list" "embedding list" "metadata list"
  | Query string embedding nat "string option"
  | GenerateContent string

text \<open>
  The environment of one request: configuration, the random identifier and the clock
  readings it will be given, and the collaborators. A collaborator's reply is any function
  of the calls made so far, the one being answered last; a store call that succeeds
  replies \<open>None\<close>.
\<close>

record env =
  CHUNK_THRESHOLD :: jsnum
  randomUUID :: string
  Date_now :: "nat \<Rightarrow> nat"
  featureExtraction :: "call list \<Rightarrow> error + embresp"
  getOrCreateCollection :: "call list \<Rightarrow> error option"
  upsert :: "call list \<Rightarrow> error option"
  query :: "call list \<Rightarrow> error + query_result"
  generateContent :: "call list \<Rightarrow> error + string"

text \<open>
  What a request can change: the staged files on disk, the binding of \<open>console.log\<close>, the
  module-level \<open>collection\<close> variable of the first server, and the calls made. What is
  printed is not modelled.
\<close>

datatype logger = NativeLog | Silenced

record world =
  disk :: "string \<rightharpoonup> string"
  console_log :: logger
  collection :: "string option"
  trace :: "call list"

definition called :: "call \<Rightarrow> world \<Rightarrow> world" where
  "called cl w = w\<lparr>trace := trace w @ [cl]\<rparr>"

section \<open>Strings\<close>

definition digit :: "nat \<Rightarrow> char" where
  "digit d = ''0123456789'' ! d"

text \<open>A non-negative integer in a template literal: its decimal digits.\<close>

fun decimal :: "nat \<Rightarrow> string" where
  "decimal n = (if n < 10 then [digit n] else decimal (n div 10) @ [digit (n mod 10)])"

declare decimal.simps [simp del]

fun join :: "string \<Rightarrow> string list \<Rightarrow> string" where
  "join sep [] = []"
| "join sep [x] = x"
| "join sep (x # y # ys) = x @ sep @ join sep (y # ys)"

definition NL :: string where
  "NL = [CHR 0x0A]"

text \<open>\<open>xs.map((x, i) => ...)\<close>: each item with its index.\<close>

definition indexed :: "'a list \<Rightarrow> ('a \<times> nat) list" where
  "indexed xs = zip xs [0..<length xs]"

section \<open>The first server: \<open>/index\<close> and \<open>/query\<close>\<close>

text \<open>
  \<open>getEmbeddings\<close> silences \<open>console.log\<close>, awaits the embedding service, and puts back
  the function it found. A call that throws leaves through the \<open>await\<close>, before the
  assignment that puts it back.
\<close>

definition getEmbeddings :: "env \<Rightarrow> string list \<Rightarrow> world \<Rightarrow> (error + embresp) \<times> world" where
  "getEmbeddings e texts w =
     (let originalLog = console_log w;
          w1 = called (FeatureExtraction texts) (w\<lparr>console_log := Silenced\<rparr>)
      in case featureExtraction e (trace w1) of
           Inl err \<Rightarrow> (Inl err, w1)
         | Inr resp \<Rightarrow> (Inr resp, w1\<lparr>console_log := originalLog\<rparr>))"

text \<open>\<open>semanticChunking\<close> behind its first two lines: the sentences are given.\<close>

definition chunk_sentences ::
  "env \<Rightarrow> string list \<Rightarrow> jsnum \<Rightarrow> world \<Rightarrow> (error + string list) \<times> world" where
  "chunk_sentences e sentences threshold w =
     (if sentences = [] then (Inr [], w)
      else case getEmbeddings e sentences w of
             (Inl err, w1) \<Rightarrow> (Inl err, w1)
           | (Inr embeddings, w1) \<Rightarrow>
               (merge_sentences sentences (vecs_of embeddings) threshold, w1))"

definition semanticChunking ::
  "env \<Rightarrow> string \<Rightarrow> jsnum \<Rightarrow> world \<Rightarrow> (error + string list) \<times> world" where
  "semanticChunking e txt threshold w = chunk_sentences e (cleanSentences txt) threshold w"

definition Damian_Ingested :: string where
  "Damian_Ingested = ''Damian_Ingested''"

definition enoent :: error where
  "enoent = FsFailure ''ENOENT: no such file or directory''"

text \<open>\<open>req.get("context") || `ctx-${crypto.randomUUID().slice(0, 8)}`\<close>: a missing or
  empty header gives the generated identifier.\<close>

definition request_context :: "env \<Rightarrow> ingest_request \<Rightarrow> string" where
  "request_context e req =
     (case context_header req of
        None \<Rightarrow> ''ctx-'' @ take 8 (randomUUID e)
      | Some h \<Rightarrow> if h = [] then ''ctx-'' @ take 8 (randomUUID e) else h)"

definition tag_chunks :: "string \<Rightarrow> string \<Rightarrow> string list \<Rightarrow> chunk list" where
  "tag_chunks name context cs =
     map (\<lambda>(ch, i). \<lparr>chunk_text = ch,
                      metadata = \<lparr>source = name, part = i, ctx = context\<rparr>,
                      embedding = Undefined\<rparr>) (indexed cs)"

text \<open>The loop over \<open>req.files\<close>: read the staged file, chunk it, stage its chunks, delete
  the file.\<close>

fun index_files ::
  "env \<Rightarrow> string \<Rightarrow> staged_file list \<Rightarrow> chunk list \<Rightarrow> world \<Rightarrow> (error + chunk list) \<times> world" where
  "index_files e context [] allChunks w = (Inr allChunks, w)"
| "index_files e context (f # rest) allChunks w =
     (case disk w (path f) of
        None \<Rightarrow> (Inl enoent, w)
      | Some txt \<Rightarrow>
          (case semanticChunking e txt (CHUNK_THRESHOLD e) w of
             (Inl err, w1) \<Rightarrow> (Inl err, w1)
           | (Inr cs, w1) \<Rightarrow>
               (case disk w1 (path f) of
                  None \<Rightarrow> (Inl enoent, w1)
                | Some _ \<Rightarrow>
                    index_files e context rest
                      (allChunks @ tag_chunks (originalname f) context cs)
                      (w1\<lparr>disk := (disk w1)((path f) := None)\<rparr>))))"

text \<open>\<open>/index\<close> behind the loop: embed all chunk texts, attach the embeddings by position,
  upsert into the collection the module-level variable holds.\<close>

definition index_store ::
  "env \<Rightarrow> string \<Rightarrow> chunk list \<Rightarrow> world \<Rightarrow> (error + response) \<times> world" where
  "index_store e context staged w =
     (case getEmbeddings e (map chunk_text staged) w of
        (Inl err, w1) \<Rightarrow> (Inl err, w1)
      | (Inr embeddings, w1) \<Rightarrow>
          (let allChunks = map (\<lambda>(ch, i). ch\<lparr>embedding := item_at embeddings i\<rparr>)
                             (indexed staged)
           in case collection w1 of
                None \<Rightarrow> (Inl undefined_read, w1)
              | Some coll \<Rightarrow>
                  (let w2 = called
                         (Upsert coll
                            (map (\<lambda>(_, i). context @ ''-'' @ decimal i) (indexed allChunks))
                            (map chunk_text allChunks)
                            (map embedding allChunks)
                            (map metadata allChunks)) w1
                   in case upsert e (trace w2) of
                        Some err \<Rightarrow> (Inl err, w2)
                      | None \<Rightarrow>
                          (Inr (Response 200
                             (Ok (''Indexed '' @ decimal (length allChunks) @ '' chunks.''))),
                           w2))))"

text \<open>The body of the \<open>try\<close> of \<open>/index\<close>, behind the check of the file set.\<close>

definition index_try ::
  "env \<Rightarrow> ingest_request \<Rightarrow> staged_file list \<Rightarrow> world \<Rightarrow> (error + response) \<times> world" where
  "index_try e req fs w =
     (let context = request_context e req;
          w1 = called (GetOrCreateCollection Damian_Ingested) w
      in case getOrCreateCollection e (trace w1) of
           Some err \<Rightarrow> (Inl err, w1)
         | None \<Rightarrow>
             (case index_files e context fs [] (w1\<lparr>collection := Some Damian_Ingested\<rparr>) of
                (Inl err, w2) \<Rightarrow> (Inl err, w2)
              | (Inr staged, w2) \<Rightarrow> index_store e context staged w2))"

definition index_handler :: "env \<Rightarrow> ingest_request \<Rightarrow> world \<Rightarrow> response \<times> world" where
  "index_handler e req w =
     (case files req of
        None \<Rightarrow> (Response 400 (Error ''No files uploaded''), w)
      | Some fs \<Rightarrow>
          if fs = [] then (Response 400 (Error ''No files uploaded''), w)
          else (case index_try e req fs w of
                  (Inl err, w1) \<Rightarrow> (Response 500 (Error (message err)), w1)
                | (Inr resp, w1) \<Rightarrow> (resp, w1)))"

text \<open>\<open>where: c ? { context: c } : undefined\<close>.\<close>

definition where_filter :: "string option \<Rightarrow> string option" where
  "where_filter cf = (case cf of None \<Rightarrow> None | Some s \<Rightarrow> if s = [] then None else Some s)"

definition retrieved_items :: "query_result \<Rightarrow> (string \<times> metadata option) list" where
  "retrieved_items result =
     map (\<lambda>(doc, i). (doc, if i < length (metadatas result)
                             then Some (metadatas result ! i) else None))
       (indexed (documents result))"

text \<open>The blocks of the prompt; reading a field of a missing metadata throws.\<close>

fun source_blocks :: "(string \<times> metadata option) list \<Rightarrow> error + string list" where
  "source_blocks [] = Inr []"
| "source_blocks ((doc, None) # rs) = Inl undefined_read"
| "source_blocks ((doc, Some m) # rs) =
     (case source_blocks rs of
        Inl err \<Rightarrow> Inl err
      | Inr bs \<Rightarrow> Inr ((''Source: '' @ source m @ ''#'' @ decimal (part m) @ NL @ doc) # bs))"

definition block_separator :: string where
  "block_separator = NL @ NL @ ''---'' @ NL @ NL"

definition make_prompt :: "string \<Rightarrow> string \<Rightarrow> string" where
  "make_prompt contextText qq =
     ''Use the following context to answer the question.'' @ NL @ NL @ contextText
       @ NL @ NL @ ''Question: '' @ qq @ NL @ ''Answer:''"

text \<open>\<open>/query\<close> from the store's reply on: the retrieved items, the prompt, the answer.\<close>

definition query_answer ::
  "env \<Rightarrow> string \<Rightarrow> query_result \<Rightarrow> world \<Rightarrow> (error + response) \<times> world" where
  "query_answer e qq result w =
     (let retrieved = retrieved_items result
      in case source_blocks retrieved of
           Inl err \<Rightarrow> (Inl err, w)
         | Inr blocks \<Rightarrow>
             (let prompt = make_prompt (join block_separator blocks) qq;
                  w1 = called (GenerateContent prompt) w
              in case generateContent e (trace w1) of
                   Inl err \<Rightarrow> (Inl err, w1)
                 | Inr answer \<Rightarrow> (Inr (Response 200 (Answer answer retrieved)), w1)))"

text \<open>The query on the collection the module-level variable holds.\<close>

definition query_collection ::
  "env \<Rightarrow> query_request \<Rightarrow> embedding \<Rightarrow> world \<Rightarrow> (error + query_result) \<times> world" where
  "query_collection e req queryEmbedding w =
     (case collection w of
        None \<Rightarrow> (Inl undefined_read, w)
      | Some coll \<Rightarrow>
          (let w1 = called
                 (Query coll queryEmbedding
                    (case body_k req of None \<Rightarrow> 5 | Some n \<Rightarrow> n)
                    (where_filter (body_c req))) w
           in case query e (trace w1) of
                Inl err \<Rightarrow> (Inl err, w1)
              | Inr result \<Rightarrow> (Inr result, w1)))"

definition query_try ::
  "env \<Rightarrow> query_request \<Rightarrow> string \<Rightarrow> world \<Rightarrow> (error + response) \<times> world" where
  "query_try e req qq w =
     (case getEmbeddings e [qq] w of
        (Inl err, w1) \<Rightarrow> (Inl err, w1)
      | (Inr resp, w1) \<Rightarrow>
          (let w2 = called (GetOrCreateCollection Damian_Ingested) w1
           in case getOrCreateCollection e (trace w2) of
                Some err \<Rightarrow> (Inl err, w2)
              | None \<Rightarrow>
                  (case query_collection e req (item_at resp 0)
                          (w2\<lparr>collection := Some Damian_Ingested\<rparr>) of
                     (Inl err, w3) \<Rightarrow> (Inl err, w3)
                   | (Inr result, w3) \<Rightarrow> query_answer e qq result w3)))"

definition query_handler :: "env \<Rightarrow> query_request \<Rightarrow> world \<Rightarrow> response \<times> world" where
  "query_handler e req w =
     (case body_q req of
        None \<Rightarrow> (Response 400 (Error ''Missing query''), w)
      | Some qq \<Rightarrow>
          if qq = [] then (Response 400 (Error ''Missing query''), w)
          else (case query_try e req qq w of
                  (Inl err, w1) \<Rightarrow> (Response 500 (Error (message err)), w1)
                | (Inr resp, w1) \<Rightarrow> (resp, w1)))"

section \<open>The third server: \<open>/upload\<close> and \<open>/chat\<close>\<close>

text \<open>Here \<open>getEmbeddings\<close> leaves \<open>console.log\<close> alone; it reports a failure and throws
  it again. The chunker is the same text.\<close>

definition getEmbeddings_v3 :: "env \<Rightarrow> string list \<Rightarrow> world \<Rightarrow> (error + embresp) \<times> world" where
  "getEmbeddings_v3 e texts w =
     (let w1 = called (FeatureExtraction texts) w
      in case featureExtraction e (trace w1) of
           Inl err \<Rightarrow> (Inl err, w1)
         | Inr resp \<Rightarrow> (Inr resp, w1))"

definition chunk_sentences_v3 ::
  "env \<Rightarrow> string list \<Rightarrow> jsnum \<Rightarrow> world \<Rightarrow> (error + string list) \<times> world" where
  "chunk_sentences_v3 e sentences threshold w =
     (if sentences = [] then (Inr [], w)
      else case getEmbeddings_v3 e sentences w of
             (Inl err, w1) \<Rightarrow> (Inl err, w1)
           | (Inr embeddings, w1) \<Rightarrow>
               (merge_sentences sentences (vecs_of embeddings) threshold, w1))"

definition semanticChunking_v3 ::
  "env \<Rightarrow> string \<Rightarrow> jsnum \<Rightarrow> world \<Rightarrow> (error + string list) \<times> world" where
  "semanticChunking_v3 e txt threshold w =
     chunk_sentences_v3 e (cleanSentences txt) threshold w"

fun upload_files ::
  "env \<Rightarrow> string \<Rightarrow> staged_file list \<Rightarrow> chunk list \<Rightarrow> world \<Rightarrow> (error + chunk list) \<times> world" where
  "upload_files e context [] allChunks w = (Inr allChunks, w)"
| "upload_files e context (f # rest) allChunks w =
     (case disk w (path f) of
        None \<Rightarrow> (Inl enoent, w)
      | Some txt \<Rightarrow>
          (case semanticChunking_v3 e txt (CHUNK_THRESHOLD e) w of
             (Inl err, w1) \<Rightarrow> (Inl err, w1)
           | (Inr cs, w1) \<Rightarrow>
               (case disk w1 (path f) of
                  None \<Rightarrow> (Inl enoent, w1)
                | Some _ \<Rightarrow>
                    upload_files e context rest
                      (allChunks @ tag_chunks (originalname f) context cs)
                      (w1\<lparr>disk := (disk w1)((path f) := None)\<rparr>))))"

text \<open>\<open>/upload\<close> behind the loop. The ids read the clock once for each chunk; the
  embeddings go to the store as the service gave them.\<close>

definition upload_store ::
  "env \<Rightarrow> string \<Rightarrow> chunk list \<Rightarrow> world \<Rightarrow> (error + response) \<times> world" where
  "upload_store e context allChunks w =
     (case getEmbeddings_v3 e (map chunk_text allChunks) w of
        (Inl err, w1) \<Rightarrow> (Inl err, w1)
      | (Inr embeddings, w1) \<Rightarrow>
          (let w2 = called
                 (Upsert Damian_Ingested
                    (map (\<lambda>(_, i). context @ ''-'' @ decimal (Date_now e i) @ ''-'' @ decimal i)
                       (indexed allChunks))
                    (map chunk_text allChunks)
                    (items embeddings)
                    (map metadata allChunks)) w1
           in case upsert e (trace w2) of
                Some err \<Rightarrow> (Inl err, w2)
              | None \<Rightarrow>
                  (Inr (Response 200
                     (Ok (''Indexed '' @ decimal (length allChunks)
                          @ '' chunks for context: '' @ context))),
                   w2)))"

definition upload_try ::
  "env \<Rightarrow> ingest_request \<Rightarrow> staged_file list \<Rightarrow> world \<Rightarrow> (error + response) \<times> world" where
  "upload_try e req fs w =
     (let context = request_context e req;
          w1 = called (GetOrCreateCollection Damian_Ingested) w
      in case getOrCreateCollection e (trace w1) of
           Some err \<Rightarrow> (Inl err, w1)
         | None \<Rightarrow>
             (case upload_files e context fs [] w1 of
                (Inl err, w2) \<Rightarrow> (Inl err, w2)
              | (Inr allChunks, w2) \<Rightarrow> upload_store e context allChunks w2))"

definition upload_handler :: "env \<Rightarrow> ingest_request \<Rightarrow> world \<Rightarrow> response \<times> world" where
  "upload_handler e req w =
     (case files req of
        None \<Rightarrow> (Response 400 (Error ''No files''), w)
      | Some fs \<Rightarrow>
          if fs = [] then (Response 400 (Error ''No files''), w)
          else (case upload_try e req fs w of
                  (Inl err, w1) \<Rightarrow> (Response 500 (Error (message err)), w1)
                | (Inr resp, w1) \<Rightarrow> (resp, w1)))"

fun source_blocks_v3 :: "(string \<times> metadata option) list \<Rightarrow> error + string list" where
  "source_blocks_v3 [] = Inr []"
| "source_blocks_v3 ((doc, None) # rs) = Inl undefined_read"
| "source_blocks_v3 ((doc, Some m) # rs) =
     (case source_blocks_v3 rs of
        Inl err \<Rightarrow> Inl err
      | Inr bs \<Rightarrow> Inr ((''Source: '' @ source m @ NL @ doc) # bs))"

text \<open>\<open>/chat\<close> from the store's reply on: with no document the fixed answer is sent at
  once.\<close>

definition chat_answer ::
  "env \<Rightarrow> string \<Rightarrow> query_result \<Rightarrow> world \<Rightarrow> (error + response) \<times> world" where
  "chat_answer e qq result w =
     (if documents result = [] then
        (Inr (Response 200 (Answer ''No matching documents found.'' [])), w)
      else
        (let retrieved = retrieved_items result
         in case source_blocks_v3 retrieved of
              Inl err \<Rightarrow> (Inl err, w)
            | Inr blocks \<Rightarrow>
                (let prompt = make_prompt (join block_separator blocks) qq;
                     w1 = called (GenerateContent prompt) w
                 in case generateContent e (trace w1) of
                      Inl err \<Rightarrow> (Inl err, w1)
                    | Inr answer \<Rightarrow> (Inr (Response 200 (Answer answer retrieved)), w1))))"

definition chat_try ::
  "env \<Rightarrow> query_request \<Rightarrow> string \<Rightarrow> world \<Rightarrow> (error + response) \<times> world" where
  "chat_try e req qq w =
     (case getEmbeddings_v3 e [qq] w of
        (Inl err, w1) \<Rightarrow> (Inl err, w1)
      | (Inr resp, w1) \<Rightarrow>
          (let w2 = called (GetOrCreateCollection Damian_Ingested) w1
           in case getOrCreateCollection e (trace w2) of
                Some err \<Rightarrow> (Inl err, w2)
              | None \<Rightarrow>
                  (let w3 = called
                         (Query Damian_Ingested (item_at resp 0)
                            (case body_k req of None \<Rightarrow> 5 | Some n \<Rightarrow> n)
                            (where_filter (body_c req))) w2
                   in case query e (trace w3) of
                        Inl err \<Rightarrow> (Inl err, w3)
                      | Inr result \<Rightarrow> chat_answer e qq result w3)))"

definition chat_handler :: "env \<Rightarrow> query_request \<Rightarrow> world \<Rightarrow> response \<times> world" where
  "chat_handler e req w =
     (case body_q req of
        None \<Rightarrow> (Response 400 (Error ''Missing query''), w)
      | Some qq \<Rightarrow>
          if qq = [] then (Response 400 (Error ''Missing query''), w)
          else (case chat_try e req qq w of
                  (Inl err, w1) \<Rightarrow> (Response 500 (Error (message err)), w1)
                | (Inr resp, w1) \<Rightarrow> (resp, w1)))"

section \<open>What the properties speak of\<close>

text \<open>The code units of a text that are not white space, in order.\<close>

definition non_space :: "string \<Rightarrow> string" where
  "non_space s = filter (\<lambda>c. \<not> is_space c) s"

text \<open>The calls a request made: the world after it holds the calls of the world before
  it and then those, each of which satisfies \<open>P\<close>.\<close>

definition extends :: "(call \<Rightarrow> bool) \<Rightarrow> world \<Rightarrow> world \<Rightarrow> bool" where
  "extends P w w' = (\<exists>new. trace w' = trace w @ new \<and> (\<forall>cl\<in>set new. P cl))"

text \<open>A call an ingestion under context \<open>c\<close> may make: to the embedding service, or to the
  store on the one collection, every record it writes tagged with \<open>c\<close>.\<close>

fun ingest_call_ok :: "string \<Rightarrow> call \<Rightarrow> bool" where
  "ingest_call_ok c (FeatureExtraction _) = True"
| "ingest_call_ok c (GetOrCreateCollection n) = (n = ''Damian_Ingested'')"
| "ingest_call_ok c (Upsert n _ _ _ metas) = (n = ''Damian_Ingested'' \<and> (\<forall>m\<in>set metas. ctx m = c))"
| "ingest_call_ok c (Query _ _ _ _) = False"
| "ingest_call_ok c (GenerateContent _) = False"

text \<open>A call a query with filter \<open>f\<close> may make: the search is on the one collection and
  carries exactly \<open>f\<close>, which is no filter at all when \<open>f\<close> is \<open>None\<close>.\<close>

fun query_call_ok :: "string option \<Rightarrow> call \<Rightarrow> bool" where
  "query_call_ok f (FeatureExtraction _) = True"
| "query_call_ok f (GetOrCreateCollection n) = (n = ''Damian_Ingested'')"
| "query_call_ok f (Upsert _ _ _ _ _) = False"
| "query_call_ok f (Query n _ _ flt) = (n = ''Damian_Ingested'' \<and> flt = f)"
| "query_call_ok f (GenerateContent _) = True"

text \<open>The sentences from index \<open>a\<close> up to index \<open>b\<close>, the latter left out.\<close>

definition slice :: "nat \<Rightarrow> nat \<Rightarrow> 'a list \<Rightarrow> 'a list" where
  "slice a b xs = take (b - a) (drop a xs)"

text \<open>Runs \<open>(a, b)\<close> of indices, \<open>a\<close> the first index of the run and \<open>b\<close> the first behind
  it: none is empty and each begins where the one before ends, from \<open>lo\<close> to \<open>hi\<close>.\<close>

fun tiles :: "nat \<Rightarrow> (nat \<times> nat) list \<Rightarrow> nat \<Rightarrow> bool" where
  "tiles lo [] hi = (lo = hi)"
| "tiles lo ((a, b) # rs) hi = (a = lo \<and> a < b \<and> tiles b rs hi)"

definition similar_to :: "jsnum \<Rightarrow> vec list \<Rightarrow> nat \<Rightarrow> nat \<Rightarrow> bool" where
  "similar_to threshold vecs a j = js_ge (cosineSimilarity (vecs ! a) (vecs ! j)) threshold"

text \<open>
  Runs over \<open>n\<close> sentences in which the vector of the sentence that opens a run is the one
  every later sentence is measured against: each further sentence of the run is similar
  to the opening one, and the sentence that opens the next run is not.
\<close>

definition anchored_runs :: "jsnum \<Rightarrow> vec list \<Rightarrow> nat \<Rightarrow> (nat \<times> nat) list \<Rightarrow> bool" where
  "anchored_runs threshold vecs n runs =
     (tiles 0 runs n \<and>
      (\<forall>(a, b)\<in>set runs.
         (\<forall>j\<in>{Suc a..<b}. similar_to threshold vecs a j) \<and>
         (b < n \<longrightarrow> \<not> similar_to threshold vecs a b)))"

text \<open>Runs that are closed: the sentence behind each opened the next run.\<close>

definition closed_runs :: "jsnum \<Rightarrow> vec list \<Rightarrow> (nat \<times> nat) list \<Rightarrow> bool" where
  "closed_runs threshold vecs rs =
     (\<forall>(a, b)\<in>set rs. (\<forall>j\<in>{Suc a..<b}. similar_to threshold vecs a j) \<and>
                         \<not> similar_to threshold vecs a b)"


text \<open>The calls made between two worlds, the second reached from the first.\<close>

definition made :: "world \<Rightarrow> world \<Rightarrow> call list" where
  "made w w' = drop (length (trace w)) (trace w')"

subsection \<open>Example environments\<close>

text \<open>An embedding service that gives every input the same unit vector.\<close>

definition unit_vectors :: "call list \<Rightarrow> error + embresp" where
  "unit_vectors tr =
     (case rev tr of
        FeatureExtraction xs # _ \<Rightarrow> Inr (Nested (map (\<lambda>_. [Fin 1, Fin 0]) xs))
      | _ \<Rightarrow> Inl (EmbeddingFailure ''no input''))"

text \<open>All collaborators up; the store finds nothing.\<close>

definition healthy :: env where
  "healthy =
     \<lparr>CHUNK_THRESHOLD = Fin 0.75,
      randomUUID = ''3f2b8c1e-7a4d-4e0b-9c56-1d2e3f4a5b6c'',
      Date_now = (\<lambda>_. 1700000000000),
      featureExtraction = unit_vectors,
      getOrCreateCollection = (\<lambda>_. None),
      upsert = (\<lambda>_. None),
      query = (\<lambda>_. Inr \<lparr>documents = [], metadatas = []\<rparr>),
      generateContent = (\<lambda>_. Inr ''I cannot tell.'')\<rparr>"

text \<open>The embedding service refuses every call.\<close>

definition embedding_down :: env where
  "embedding_down =
     healthy\<lparr>featureExtraction := (\<lambda>_. Inl (EmbeddingFailure ''quota exceeded''))\<rparr>"

text \<open>The embedding service tells two topics apart: its reply is always three vectors,
  the first two equal and the third orthogonal to them.\<close>

definition two_topics :: env where
  "two_topics =
     healthy\<lparr>featureExtraction :=
       (\<lambda>_. Inr (Nested [[Fin 1, Fin 0], [Fin 1, Fin 0], [Fin 0, Fin 1]]))\<rparr>"

text \<open>A world with the given staged files, before any request.\<close>

definition fresh :: "(string \<times> string) list \<Rightarrow> world" where
  "fresh staged =
     \<lparr>disk = map_of staged, console_log = NativeLog, collection = None, trace = []\<rparr>"

definition upload_of :: "string \<Rightarrow> string \<Rightarrow> string \<Rightarrow> ingest_request" where
  "upload_of context p name =
     \<lparr>files = Some [\<lparr>path = p, originalname = name\<rparr>], context_header = Some context\<rparr>"

definition question :: "string \<Rightarrow> query_request" where
  "question qq = \<lparr>body_q = Some qq, body_k = None, body_c = None\<rparr>"

definition question_in :: "string \<Rightarrow> string \<Rightarrow> query_request" where
  "question_in context qq = \<lparr>body_q = Some qq, body_k = None, body_c = Some context\<rparr>"

text \<open>The store finds one record.\<close>

definition one_hit :: env where
  "one_hit =
     healthy\<lparr>query := (\<lambda>_. Inr \<lparr>documents = [''First.''],
                 metadatas = [\<lparr>source = ''one.txt'', part = 0, ctx = ''A''\<rparr>]\<rparr>)\<rparr>"

section \<open>Rounding\<close>

text \<open>A real that is a significand of less than 53 bits times a power of two in range is
  a double, and rounding leaves it as it is.\<close>

lemma round_half_even_int: "round_half_even (of_int n) = n"
  by (simp add: round_half_even_def)

lemma rnd_zero: "rnd 0 = Fin 0"
  by (simp add: rnd_def)

lemma quantum_exp_le:
  assumes "x \<noteq> 0" and "\<bar>x\<bar> < 2 powr of_int (53 + e)" and "- 1074 \<le> e"
  shows "quantum_exp x \<le> e"
proof -
  have "log 2 \<bar>x\<bar> < of_int (53 + e)"
    using assms(1,2) by (simp add: log_less_iff)
  then have "\<lfloor>log 2 \<bar>x\<bar>\<rfloor> < 53 + e" by (simp add: floor_less_iff)
  then show ?thesis using assms(3) by (simp add: quantum_exp_def)
qed

lemma rnd_exact:
  assumes x: "x = of_int m * 2 powr of_int e"
    and m: "\<bar>m\<bar> < 2 ^ 53" and e: "- 1074 \<le> e" and fin: "\<bar>x\<bar> < 2 ^ 1024"
  shows "rnd x = Fin x"
proof (cases "x = 0")
  case True
  then show ?thesis by (simp add: rnd_def)
next
  case False
  let ?E = "quantum_exp x"
  have "\<bar>x\<bar> = of_int \<bar>m\<bar> * 2 powr of_int e" by (simp add: x abs_mult)
  also have "\<dots> < 2 ^ 53 * 2 powr of_int e"
  proof (rule mult_strict_right_mono)
    have "real_of_int \<bar>m\<bar> < real_of_int (2 ^ 53)" using m by (simp only: of_int_less_iff)
    then show "real_of_int \<bar>m\<bar> < 2 ^ 53" by simp
  qed simp
  also have "\<dots> = 2 powr of_int (53 + e)"
    by (simp add: powr_add powr_realpow[symmetric])
  finally have "\<bar>x\<bar> < 2 powr of_int (53 + e)" .
  then have le: "?E \<le> e" using False e by (intro quantum_exp_le)
  define d where "d = nat (e - ?E)"
  define q :: real where "q = 2 powr of_int ?E"
  have qpos: "0 < q" by (simp add: q_def)
  have de: "e = ?E + int d" using le by (simp add: d_def)
  have "(2::real) powr of_int e = 2 powr of_int ?E * 2 ^ d"
    by (subst de) (simp add: powr_add powr_realpow)
  then have pw: "2 powr of_int e = q * 2 ^ d" by (simp add: q_def)
  have "x = of_int m * (q * 2 ^ d)" by (subst x) (simp only: pw)
  then have xq: "x / q = of_int (m * 2 ^ d)" using qpos by simp
  have "round_half_even (x / q) = m * 2 ^ d"
    unfolding xq by (rule round_half_even_int)
  then have r: "of_int (round_half_even (x / q)) * q = x"
    using xq qpos by (simp add: field_simps)
  have "\<not> 2 ^ 1024 \<le> x" "\<not> x \<le> - (2 ^ 1024)" using fin by auto
  then show ?thesis using False r unfolding rnd_def Let_def q_def by simp
qed

lemma rnd_int: "\<bar>n\<bar> < 2 ^ 53 \<Longrightarrow> rnd (of_int n) = Fin (of_int n)"
proof -
  assume a: "\<bar>n\<bar> < 2 ^ 53"
  then have "real_of_int \<bar>n\<bar> < real_of_int (2 ^ 53)" by (simp only: of_int_less_iff)
  then have "\<bar>real_of_int n\<bar> < 2 ^ 1024" by simp
  then show ?thesis using a by (intro rnd_exact[of _ n 0]) simp_all
qed

lemma rnd_numeral: "(numeral k :: int) < 2 ^ 53 \<Longrightarrow> rnd (numeral k) = Fin (numeral k)"
  using rnd_int[of "numeral k"] by simp

lemma rnd_one: "rnd 1 = Fin 1"
  using rnd_int[of 1] by simp

lemma rnd_half: "rnd (1 / 2) = Fin (1 / 2)"
  by (rule rnd_exact[of _ 1 "-1"]) (simp_all add: powr_minus)


text \<open>A real strictly within half a unit in the last place of a double of its own binade
  rounds to that double.\<close>

lemma round_half_even_near:
  assumes "of_int N - 1 / 2 < y" and "y < of_int N + 1 / 2"
  shows "round_half_even y = N"
proof (cases "of_int N \<le> y")
  case True
  then have "\<lfloor>y\<rfloor> = N" using assms(2) by (simp add: floor_eq_iff)
  then show ?thesis using assms(2) by (simp add: round_half_even_def)
next
  case False
  then have f: "\<lfloor>y\<rfloor> = N - 1" using assms(1) by (simp add: floor_eq_iff)
  have "1 / 2 < y - of_int (N - 1)" using assms(1) by simp
  then show ?thesis unfolding round_half_even_def f by simp
qed

lemma rnd_near:
  fixes x :: real
  assumes "2 powr of_int L \<le> x" and "x < 2 powr of_int (L + 1)" and "- 1022 \<le> L"
    and "of_int N - 1 / 2 < x / 2 powr of_int (L - 52)"
    and "x / 2 powr of_int (L - 52) < of_int N + 1 / 2"
    and "\<bar>real_of_int N * 2 powr of_int (L - 52)\<bar> < 2 ^ 1024"
  shows "rnd x = Fin (of_int N * 2 powr of_int (L - 52))"
proof -
  have "0 < (2::real) powr of_int L" by simp
  then have pos: "0 < x" using assms(1) by linarith
  have "of_int L \<le> log 2 x" using pos assms(1) by (simp add: le_log_iff)
  moreover have "log 2 x < of_int (L + 1)" using pos assms(2) by (simp add: log_less_iff)
  ultimately have "\<lfloor>log 2 \<bar>x\<bar>\<rfloor> = L" using pos by (simp add: floor_eq_iff)
  then have E: "quantum_exp x = L - 52" using assms(3) by (simp add: quantum_exp_def)
  have r: "round_half_even (x / 2 powr of_int (L - 52)) = N"
    using assms(4,5) by (rule round_half_even_near)
  have "\<not> 2 ^ 1024 \<le> real_of_int N * 2 powr of_int (L - 52)"
    "\<not> real_of_int N * 2 powr of_int (L - 52) \<le> - (2 ^ 1024)"
    using assms(6) by (simp_all add: abs_less_iff)
  then show ?thesis using pos E r unfolding rnd_def Let_def by simp
qed


text \<open>Three roundings that are not exact: the square root of two, its square, and two
  divided by that.\<close>

lemma two_powr_m52: "(2::real) powr of_int (0 - 52) = 1 / 4503599627370496"
proof -
  have "(2::real) powr 52 = 4503599627370496" by simp
  then have "(2::real) powr (- 52) = 1 / 4503599627370496"
    by (simp only: powr_minus divide_inverse mult_1)
  then show ?thesis by simp
qed

lemma rnd_sqrt_two: "rnd (sqrt 2) = Fin (6369051672525773 / 4503599627370496)"
proof -
  have lo: "12738103345051545 / 9007199254740992 < sqrt 2"
    by (rule real_less_rsqrt) (simp add: power2_eq_square)
  have hi: "sqrt 2 < 12738103345051547 / 9007199254740992"
    by (rule real_less_lsqrt) (simp_all add: power2_eq_square)
  have "rnd (sqrt 2) = Fin (of_int 6369051672525773 * 2 powr of_int (0 - 52))"
  proof (rule rnd_near)
    show "2 powr of_int 0 \<le> sqrt 2" by simp
    have "sqrt 2 < sqrt 4" by (simp only: real_sqrt_less_iff)
    then show "sqrt 2 < 2 powr of_int (0 + 1)" by simp
    show "of_int 6369051672525773 - 1 / 2 < sqrt 2 / 2 powr of_int (0 - 52)"
      unfolding two_powr_m52 using lo by simp
    show "sqrt 2 / 2 powr of_int (0 - 52) < of_int 6369051672525773 + 1 / 2"
      unfolding two_powr_m52 using hi by simp
    show "\<bar>real_of_int 6369051672525773 * 2 powr of_int (0 - 52)\<bar> < 2 ^ 1024"
      unfolding two_powr_m52 by simp
  qed simp
  then show ?thesis unfolding two_powr_m52 by simp
qed


lemma two_powr_m51: "(2::real) powr of_int (1 - 52) = 1 / 2251799813685248"
proof -
  have "(2::real) powr 51 = 2251799813685248" by simp
  then have "(2::real) powr (- 51) = 1 / 2251799813685248"
    by (simp only: powr_minus divide_inverse mult_1)
  then show ?thesis by simp
qed

lemma two_powr_m53: "(2::real) powr of_int (- 1 - 52) = 1 / 9007199254740992"
proof -
  have "(2::real) powr 53 = 9007199254740992" by simp
  then have "(2::real) powr (- 53) = 1 / 9007199254740992"
    by (simp only: powr_minus divide_inverse mult_1)
  then show ?thesis by simp
qed

lemma rnd_square_of_root:
  "rnd (6369051672525773 / 4503599627370496 * (6369051672525773 / 4503599627370496))
     = Fin (4503599627370497 / 2251799813685248)"
proof -
  let ?x = "6369051672525773 / 4503599627370496 * (6369051672525773 / 4503599627370496) :: real"
  have "rnd ?x = Fin (of_int 4503599627370497 * 2 powr of_int (1 - 52))"
  proof (rule rnd_near)
    show "2 powr of_int 1 \<le> ?x" by simp
    show "?x < 2 powr of_int (1 + 1)" by simp
    show "of_int 4503599627370497 - 1 / 2 < ?x / 2 powr of_int (1 - 52)"
      unfolding two_powr_m51 by simp
    show "?x / 2 powr of_int (1 - 52) < of_int 4503599627370497 + 1 / 2"
      unfolding two_powr_m51 by simp
    show "\<bar>real_of_int 4503599627370497 * 2 powr of_int (1 - 52)\<bar> < 2 ^ 1024"
      unfolding two_powr_m51 by simp
  qed simp
  then show ?thesis unfolding two_powr_m51 by simp
qed

lemma rnd_quotient_below_one:
  "rnd (2 / (4503599627370497 / 2251799813685248))
     = Fin (4503599627370495 / 4503599627370496)"
proof -
  let ?x = "2 / (4503599627370497 / 2251799813685248) :: real"
  have "rnd ?x = Fin (of_int 9007199254740990 * 2 powr of_int (- 1 - 52))"
  proof (rule rnd_near)
    have "(2::real) powr (- 1) = inverse (2 powr 1)" by (rule powr_minus)
    then have "(2::real) powr of_int (- 1) = 1 / 2" by simp
    then show "2 powr of_int (- 1) \<le> ?x" by simp
    show "?x < 2 powr of_int (- 1 + 1)" by simp
    show "of_int 9007199254740990 - 1 / 2 < ?x / 2 powr of_int (- 1 - 52)"
      unfolding two_powr_m53 by simp
    show "?x / 2 powr of_int (- 1 - 52) < of_int 9007199254740990 + 1 / 2"
      unfolding two_powr_m53 by simp
    show "\<bar>real_of_int 9007199254740990 * 2 powr of_int (- 1 - 52)\<bar> < 2 ^ 1024"
      unfolding two_powr_m53 by simp
  qed simp
  then show ?thesis unfolding two_powr_m53 by simp
qed

declare rnd_zero [simp]

section \<open>Rounding shows in the similarity\<close>

text \<open>The similarity of a vector with itself need not be one: for \<open>[1, 1]\<close> the rounded
  square root of two, squared and rounded, is above two, and the quotient is the double
  just below one. At threshold one the two sentences are split.\<close>

lemma equal_vectors_below_one:
  "cosineSimilarity [Fin 1, Fin 1] [Fin 1, Fin 1] = Fin (4503599627370495 / 4503599627370496)
   \<and> \<not> js_ge (cosineSimilarity [Fin 1, Fin 1] [Fin 1, Fin 1]) (Fin 1)"
proof -
  have two: "rnd 2 = Fin 2" using rnd_numeral[of "Num.Bit0 Num.One"] by simp
  have d: "dotProduct [Fin 1, Fin 1] [Fin 1, Fin 1] = Fin 2"
    by (simp add: dotProduct_def js_nth_def rnd_one two)
  have m: "magnitude [Fin 1, Fin 1] = Fin (6369051672525773 / 4503599627370496)"
    by (simp add: magnitude_def rnd_one two rnd_sqrt_two)
  have p: "js_mul (Fin (6369051672525773 / 4503599627370496))
             (Fin (6369051672525773 / 4503599627370496))
           = Fin (4503599627370497 / 2251799813685248)"
    by (simp only: js_mul.simps rnd_square_of_root)
  have q: "js_div (Fin 2) (Fin (4503599627370497 / 2251799813685248))
           = Fin (4503599627370495 / 4503599627370496)"
  proof -
    have "(4503599627370497 / 2251799813685248 :: real) \<noteq> 0" by simp
    then show ?thesis by (simp only: js_div.simps if_False rnd_quotient_below_one)
  qed
  have c: "cosineSimilarity [Fin 1, Fin 1] [Fin 1, Fin 1]
           = Fin (4503599627370495 / 4503599627370496)"
    unfolding cosineSimilarity_def d m p q ..
  show ?thesis unfolding c by simp
qed

section \<open>Cosine similarity with a vector of zeros\<close>

lemma js_mul_zero_left: "js_mul (Fin 0) y \<in> {Fin 0, NaN}"
  by (cases y) simp_all

lemma js_mul_zero_right: "js_mul x (Fin 0) \<in> {Fin 0, NaN}"
  by (cases x) simp_all

lemma js_mul_NaN_right: "js_mul x NaN = NaN"
  by (cases x) simp_all

lemma js_add_zero_NaN:
  "acc \<in> {Fin 0, NaN} \<Longrightarrow> t \<in> {Fin 0, NaN} \<Longrightarrow> js_add acc t \<in> {Fin 0, NaN}"
  by auto

lemma dot_zero_left:
  "\<forall>x\<in>set a. x = Fin 0 \<Longrightarrow> acc \<in> {Fin 0, NaN} \<Longrightarrow>
   reduce_idx (\<lambda>sum x i. js_add sum (js_mul x (js_nth b i))) a i acc \<in> {Fin 0, NaN}"
proof (induction a arbitrary: i acc)
  case Nil
  then show ?case by simp
next
  case (Cons x a)
  have "js_add acc (js_mul x (js_nth b i)) \<in> {Fin 0, NaN}"
    using Cons.prems js_mul_zero_left[of "js_nth b i"] by (intro js_add_zero_NaN) auto
  then show ?case using Cons by simp
qed

lemma js_nth_zero: "\<forall>x\<in>set b. x = Fin 0 \<Longrightarrow> js_nth b i \<in> {Fin 0, NaN}"
  by (simp add: js_nth_def)

lemma dot_zero_right:
  "\<forall>x\<in>set b. x = Fin 0 \<Longrightarrow> acc \<in> {Fin 0, NaN} \<Longrightarrow>
   reduce_idx (\<lambda>sum x i. js_add sum (js_mul x (js_nth b i))) a i acc \<in> {Fin 0, NaN}"
proof (induction a arbitrary: i acc)
  case Nil
  then show ?case by simp
next
  case (Cons x a)
  have "js_mul x (js_nth b i) \<in> {Fin 0, NaN}"
    using js_nth_zero[OF Cons.prems(1), of i] js_mul_zero_right[of x] js_mul_NaN_right[of x]
    by auto
  then have "js_add acc (js_mul x (js_nth b i)) \<in> {Fin 0, NaN}"
    using Cons.prems(2) by (intro js_add_zero_NaN)
  then show ?case using Cons by simp
qed

lemma sq_sum_all_zero:
  "\<forall>x\<in>set v. x = Fin 0 \<Longrightarrow>
   reduce_idx (\<lambda>sum a i. js_add sum (js_mul a a)) v i (Fin 0) = Fin 0"
  by (induction v arbitrary: i) simp_all

lemma magnitude_all_zero: "\<forall>x\<in>set v. x = Fin 0 \<Longrightarrow> magnitude v = Fin 0"
  by (simp add: magnitude_def sq_sum_all_zero)

lemma js_div_zero_NaN: "x \<in> {Fin 0, NaN} \<Longrightarrow> d \<in> {Fin 0, NaN} \<Longrightarrow> js_div x d = NaN"
  by auto


lemma zero_magnitude_product:
  "magnitude a = Fin 0 \<or> magnitude b = Fin 0 \<Longrightarrow>
     js_mul (magnitude a) (magnitude b) \<in> {Fin 0, NaN}"
  using js_mul_zero_left[of "magnitude b"] js_mul_zero_right[of "magnitude a"] by auto


lemma cosine_all_zero:
  assumes "(\<forall>x\<in>set a. x = Fin 0) \<or> (\<forall>x\<in>set b. x = Fin 0)"
  shows "cosineSimilarity a b = NaN"
proof -
  have d: "dotProduct a b \<in> {Fin 0, NaN}"
    using assms dot_zero_left[of a "Fin 0" b 0] dot_zero_right[of b "Fin 0" a 0]
    unfolding dotProduct_def by blast
  have "magnitude a = Fin 0 \<or> magnitude b = Fin 0"
    using assms magnitude_all_zero by blast
  then have m: "js_mul (magnitude a) (magnitude b) \<in> {Fin 0, NaN}"
    by (rule zero_magnitude_product)
  show ?thesis unfolding cosineSimilarity_def using d m by (rule js_div_zero_NaN)
qed

lemma js_ge_infinite: "x \<in> {NaN, PInf, NInf} \<Longrightarrow> js_ge x (Fin t) = (x = PInf)"
  by auto








section \<open>What the segmenter keeps\<close>

text \<open>The sentences are non-empty and trimmed, and a text without a terminator is one
  sentence, the trimmed text.\<close>

lemma cleanSentences_nonempty: "[] \<notin> set (cleanSentences content)"
  by (simp add: cleanSentences_def Let_def)

lemma last_dropWhile_nonempty: "dropWhile P xs \<noteq> [] \<Longrightarrow> last (dropWhile P xs) = last xs"
  by (induction xs) (auto split: if_splits)

lemma trim_ends:
  assumes "trim s \<noteq> []"
  shows "\<not> is_space (hd (trim s)) \<and> \<not> is_space (last (trim s))"
proof -
  let ?t = "dropWhile is_space s"
  let ?u = "dropWhile is_space (rev ?t)"
  from assms have u: "?u \<noteq> []" by (simp add: trim_def)
  then have t: "?t \<noteq> []" by (cases "?t") simp_all
  have "last (trim s) = hd ?u" using u by (simp add: trim_def last_rev)
  moreover have "\<not> is_space (hd ?u)" using u by (rule hd_dropWhile)
  moreover have "hd (trim s) = last ?u" using u by (simp add: trim_def hd_rev)
  moreover have "last ?u = last (rev ?t)" using u by (rule last_dropWhile_nonempty)
  moreover have "last (rev ?t) = hd ?t" using t by (simp add: last_rev)
  moreover have "\<not> is_space (hd ?t)" using t by (rule hd_dropWhile)
  ultimately show ?thesis by simp
qed

lemma cleanSentences_trimmed:
  "s \<in> set (cleanSentences content) \<Longrightarrow> \<not> is_space (hd s) \<and> \<not> is_space (last s)"
  by (auto simp: cleanSentences_def Let_def trim_ends split: if_splits)

lemma sentence_matches_no_terminator:
  "\<forall>c\<in>set s. \<not> is_terminator c \<Longrightarrow> sentence_matches s = []"
proof -
  assume a: "\<forall>c\<in>set s. \<not> is_terminator c"
  then have "dropWhile (\<lambda>c. \<not> is_terminator c) s = []" by simp
  moreover have "s \<noteq> [] \<Longrightarrow> takeWhile (\<lambda>c. \<not> is_terminator c) s \<noteq> []"
    using a by (cases s) auto
  ultimately show ?thesis by (subst sentence_matches.simps) simp
qed

lemma cleanSentences_no_terminator:
  "\<forall>c\<in>set content. \<not> is_terminator c \<Longrightarrow>
     cleanSentences content = (if trim content = [] then [] else [trim content])"
  by (simp add: cleanSentences_def sentence_matches_no_terminator)

section \<open>The chunks cover the sentences\<close>

lemma join_snoc: "g \<noteq> [] \<Longrightarrow> join sep (g @ [s]) = join sep g @ sep @ s"
  by (induction sep g rule: join.induct) auto

lemma join_nonempty: "g \<noteq> [] \<Longrightarrow> [] \<notin> set g \<Longrightarrow> join sep g \<noteq> []"
  by (induction sep g rule: join.induct) auto

lemma chunk_loop_groups:
  assumes "chunk_loop threshold vecs i rest st = Inr st'"
    and "chunks st = map (join '' '') gs" and "currentChunk st = join '' '' g"
    and "g \<noteq> []" and "[] \<notin> set gs"
  shows "\<exists>gs' g'. chunks st' = map (join '' '') gs' \<and> currentChunk st' = join '' '' g' \<and>
           g' \<noteq> [] \<and> [] \<notin> set gs' \<and> concat gs' @ g' = concat gs @ g @ rest"
  using assms
proof (induction rest arbitrary: i st gs g)
  case Nil
  then show ?case by auto
next
  case (Cons s rest)
  from Cons.prems(1) obtain st1 where
    body: "loop_body threshold vecs i s st = Inr st1" and
    loop: "chunk_loop threshold vecs (Suc i) rest st1 = Inr st'"
    by (auto split: sum.splits)
  from body have inrange: "i < length vecs"
    by (auto simp: loop_body_def split: if_splits)
  show ?case
  proof (cases "js_ge (cosineSimilarity (currentVec st) (vecs ! i)) threshold")
    case True
    with body inrange have st1: "st1 = st\<lparr>currentChunk := currentChunk st @ '' '' @ s\<rparr>"
      by (simp add: loop_body_def)
    have "chunks st1 = map (join '' '') gs" using st1 Cons.prems(2) by simp
    moreover have "currentChunk st1 = join '' '' (g @ [s])"
      using st1 Cons.prems(3,4) by (simp add: join_snoc)
    moreover have "g @ [s] \<noteq> []" by simp
    ultimately obtain gs' g' where
      "chunks st' = map (join '' '') gs'" "currentChunk st' = join '' '' g'"
      "g' \<noteq> []" "[] \<notin> set gs'" "concat gs' @ g' = concat gs @ (g @ [s]) @ rest"
      using Cons.IH[OF loop _ _ _ Cons.prems(5)] by blast
    then show ?thesis by auto
  next
    case False
    with body inrange have st1: "st1 = \<lparr>chunks = chunks st @ [currentChunk st],
        currentChunk = s, currentVec = vecs ! i\<rparr>"
      by (simp add: loop_body_def)
    have "chunks st1 = map (join '' '') (gs @ [g])" using st1 Cons.prems(2,3) by simp
    moreover have "currentChunk st1 = join '' '' [s]" using st1 by simp
    moreover have "[s] \<noteq> []" by simp
    moreover have "[] \<notin> set (gs @ [g])" using Cons.prems(4,5) by auto
    ultimately obtain gs' g' where
      "chunks st' = map (join '' '') gs'" "currentChunk st' = join '' '' g'"
      "g' \<noteq> []" "[] \<notin> set gs'" "concat gs' @ g' = concat (gs @ [g]) @ [s] @ rest"
      using Cons.IH[OF loop] by blast
    then show ?thesis by auto
  qed
qed

lemma merge_sentences_groups:
  assumes "merge_sentences sentences vecs threshold = Inr out" and "[] \<notin> set sentences"
  shows "\<exists>groups. concat groups = sentences \<and> [] \<notin> set groups \<and> out = map (join '' '') groups"
proof (cases sentences)
  case Nil
  with assms(1) have "out = []" by (simp add: merge_sentences_def)
  with Nil show ?thesis by (intro exI[of _ "[]"]) simp
next
  case (Cons s0 rest)
  with assms(2) have s0: "s0 \<noteq> []" by auto
  show ?thesis
  proof (cases vecs)
    case Nil
    with Cons assms(1) s0 have "rest = []" "out = [s0]"
      by (auto simp: merge_sentences_def split: if_splits)
    with Cons show ?thesis by (intro exI[of _ "[[s0]]"]) simp
  next
    case (Cons v0 vs)
    with \<open>sentences = s0 # rest\<close> assms(1) obtain st where
      loop: "chunk_loop threshold vecs 1 rest \<lparr>chunks = [], currentChunk = s0, currentVec = v0\<rparr> = Inr st"
      and out: "out = (if currentChunk st \<noteq> [] then chunks st @ [currentChunk st] else chunks st)"
      by (auto simp: merge_sentences_def split: sum.splits)
    have "\<exists>gs' g'. chunks st = map (join '' '') gs' \<and> currentChunk st = join '' '' g' \<and>
           g' \<noteq> [] \<and> [] \<notin> set gs' \<and> concat gs' @ g' = concat [] @ [s0] @ rest"
      by (rule chunk_loop_groups[OF loop]) simp_all
    then obtain gs' g' where g: "chunks st = map (join '' '') gs'" "currentChunk st = join '' '' g'"
      "g' \<noteq> []" "[] \<notin> set gs'" "concat gs' @ g' = s0 # rest" by auto
    have "[] \<notin> set g'"
    proof
      assume "[] \<in> set g'"
      then have "[] \<in> set (concat gs' @ g')" by simp
      with g(5) \<open>sentences = s0 # rest\<close> assms(2) show False by simp
    qed
    then have "currentChunk st \<noteq> []" using g(2,3) by (simp add: join_nonempty)
    with out g have "out = map (join '' '') (gs' @ [g'])" by simp
    moreover have "concat (gs' @ [g']) = sentences" using g(5) \<open>sentences = s0 # rest\<close> by simp
    moreover have "[] \<notin> set (gs' @ [g'])" using g(3,4) by auto
    ultimately show ?thesis by blast
  qed
qed

lemma groups_of_single:
  assumes "concat groups = [s]" and "[] \<notin> set groups"
  shows "groups = [[s]]"
proof (cases groups)
  case Nil
  with assms show ?thesis by simp
next
  case (Cons g gs)
  with assms(2) have "g \<noteq> []" by auto
  with assms(1) Cons have "g = [s]" "concat gs = []"
    by (auto simp: append_eq_Cons_conv)
  moreover from this(2) assms(2) Cons have "gs = []" by (cases gs) auto
  ultimately show ?thesis using Cons by simp
qed

lemma groups_of_none:
  assumes "concat groups = []" and "[] \<notin> set groups"
  shows "groups = []"
  using assms by (cases groups) auto

text \<open>
  C2. Without a sentence the chunker returns no chunk (and calls nothing). Whenever it
  returns chunks for non-empty sentences, the sentences split into consecutive non-empty
  groups, in order and without gap or overlap, and the chunks are the groups joined by
  single spaces, in the same order; so no sentence gives no chunk and one sentence gives
  that sentence as the only chunk. For one sentence it does return whenever the
  embedding call does.
\<close>

theorem chunker_covers_sentences:
  "chunk_sentences e [] threshold w = (Inr [], w)
   \<and> (chunk_sentences e sentences threshold w = (Inr out, w') \<and> [] \<notin> set sentences \<longrightarrow>
        (\<exists>groups. concat groups = sentences \<and> [] \<notin> set groups \<and>
                   out = map (join '' '') groups)
        \<and> (sentences = [] \<longrightarrow> out = [])
        \<and> (\<forall>s. sentences = [s] \<longrightarrow> out = [s]))
   \<and> (\<forall>s r. s \<noteq> [] \<and> featureExtraction e (trace w @ [FeatureExtraction [s]]) = Inr r \<longrightarrow>
        fst (chunk_sentences e [s] threshold w) = Inr [s])"
proof (intro conjI impI allI)
  show "chunk_sentences e [] threshold w = (Inr [], w)"
    by (simp add: chunk_sentences_def)
next
  assume a: "chunk_sentences e sentences threshold w = (Inr out, w') \<and> [] \<notin> set sentences"
  then have "\<exists>vs. merge_sentences sentences vs threshold = Inr out"
    by (auto simp: chunk_sentences_def merge_sentences_def split: if_splits prod.splits sum.splits)
  then obtain vs where "merge_sentences sentences vs threshold = Inr out" by auto
  with a show g: "\<exists>groups. concat groups = sentences \<and> [] \<notin> set groups \<and>
                   out = map (join '' '') groups"
    by (intro merge_sentences_groups) auto
  { assume "sentences = []"
    with g show "out = []" using groups_of_none by fastforce }
  { fix s assume "sentences = [s]"
    with g show "out = [s]" using groups_of_single by fastforce }
next
  fix s r
  assume a: "s \<noteq> [] \<and> featureExtraction e (trace w @ [FeatureExtraction [s]]) = Inr r"
  have "merge_sentences [s] (vecs_of r) threshold = Inr [s]"
    using a by (cases "vecs_of r") (simp_all add: merge_sentences_def)
  with a show "fst (chunk_sentences e [s] threshold w) = Inr [s]"
    by (simp add: chunk_sentences_def getEmbeddings_def called_def)
qed


text \<open>The scenario of three sentences on two topics.\<close>

theorem chunker_covers_sentences_witness:
  "fst (chunk_sentences two_topics
          [''Cats are mammals.'', ''Dogs are mammals too.'', ''The stock market crashed today.'']
          (Fin 0.75) (fresh [])) =
     Inr [''Cats are mammals. Dogs are mammals too.'', ''The stock market crashed today.'']
   \<and> (\<exists>groups. concat groups =
          [''Cats are mammals.'', ''Dogs are mammals too.'', ''The stock market crashed today.'']
        \<and> [] \<notin> set groups
        \<and> [''Cats are mammals. Dogs are mammals too.'', ''The stock market crashed today.'']
            = map (join '' '') groups)"
proof -
  let ?ss = "[''Cats are mammals.'', ''Dogs are mammals too.'', ''The stock market crashed today.'']"
  let ?out = "[''Cats are mammals. Dogs are mammals too.'', ''The stock market crashed today.'']"
  let ?w' = "snd (chunk_sentences two_topics ?ss (Fin 0.75) (fresh []))"
  have run: "fst (chunk_sentences two_topics ?ss (Fin 0.75) (fresh [])) = Inr ?out"
    by (simp add: chunk_sentences_def getEmbeddings_def called_def two_topics_def healthy_def
        fresh_def merge_sentences_def loop_body_def cosineSimilarity_def dotProduct_def
        magnitude_def js_nth_def rnd_one)
  then have "chunk_sentences two_topics ?ss (Fin 0.75) (fresh []) = (Inr ?out, ?w')"
    by (simp add: prod_eq_iff)
  moreover have "[] \<notin> set ?ss" by simp
  ultimately show ?thesis
    using chunker_covers_sentences[of two_topics "Fin 0.75" "fresh []" ?ss ?out ?w'] run
    by blast
qed

text \<open>From the text on: the chunks of \<open>semanticChunking\<close> are groups of the sentences
  the segmenter gave.\<close>

lemma semanticChunking_covers:
  assumes "semanticChunking e content threshold w = (Inr out, w')"
  shows "\<exists>groups. concat groups = cleanSentences content \<and> [] \<notin> set groups \<and>
           out = map (join '' '') groups"
proof -
  from assms have "\<exists>vs. merge_sentences (cleanSentences content) vs threshold = Inr out"
    by (auto simp: semanticChunking_def chunk_sentences_def merge_sentences_def
        split: if_splits prod.splits sum.splits)
  then obtain vs where "merge_sentences (cleanSentences content) vs threshold = Inr out" by auto
  then show ?thesis using cleanSentences_nonempty by (rule merge_sentences_groups)
qed

text \<open>The chunker of the third server is the same loop behind another embedding client.\<close>

lemma chunker_v3_covers_sentences:
  assumes "chunk_sentences_v3 e sentences threshold w = (Inr out, w')" and "[] \<notin> set sentences"
  shows "\<exists>groups. concat groups = sentences \<and> [] \<notin> set groups \<and> out = map (join '' '') groups"
proof -
  from assms(1) have "\<exists>vs. merge_sentences sentences vs threshold = Inr out"
    by (auto simp: chunk_sentences_v3_def merge_sentences_def
        split: if_splits prod.splits sum.splits)
  then obtain vs where "merge_sentences sentences vs threshold = Inr out" by auto
  then show ?thesis using assms(2) by (rule merge_sentences_groups)
qed

text \<open>The loop throws only when the service gave fewer vectors than there are sentences.\<close>

lemma chunk_loop_total:
  "i + length rest \<le> length vecs \<Longrightarrow> \<exists>st'. chunk_loop threshold vecs i rest st = Inr st'"
proof (induction rest arbitrary: i st)
  case Nil
  show ?case by simp
next
  case (Cons s rest)
  then have "i < length vecs" by simp
  then have "\<exists>st1. loop_body threshold vecs i s st = Inr st1"
    by (simp add: loop_body_def Let_def)
  then obtain st1 where "loop_body threshold vecs i s st = Inr st1" by blast
  moreover have "\<exists>st'. chunk_loop threshold vecs (Suc i) rest st1 = Inr st'"
    using Cons.prems by (intro Cons.IH) simp
  ultimately show ?case by auto
qed

lemma merge_sentences_total:
  "length sentences \<le> length vecs \<Longrightarrow> \<exists>out. merge_sentences sentences vecs threshold = Inr out"
proof (cases sentences)
  case Nil
  then show ?thesis by (simp add: merge_sentences_def)
next
  case (Cons s0 rest)
  assume le: "length sentences \<le> length vecs"
  with Cons obtain v0 vs where v: "vecs = v0 # vs" by (cases vecs) auto
  have "1 + length rest \<le> length vecs" using le Cons by simp
  then obtain st where
    "chunk_loop threshold vecs 1 rest \<lparr>chunks = [], currentChunk = s0, currentVec = v0\<rparr> = Inr st"
    using chunk_loop_total[of 1 rest vecs threshold] by blast
  with Cons v show ?thesis by (simp add: merge_sentences_def)
qed

section \<open>The anchor of a run\<close>

lemma tiles_snoc: "tiles lo (rs @ [(a, b)]) hi = (tiles lo rs a \<and> a < b \<and> b = hi)"
  by (induction rs arbitrary: lo) auto

lemma slice_Suc:
  "a \<le> i \<Longrightarrow> i < length xs \<Longrightarrow> slice a (Suc i) xs = slice a i xs @ [xs ! i]"
proof -
  assume a: "a \<le> i" and i: "i < length xs"
  then have "Suc i - a = Suc (i - a)" by simp
  moreover have "i - a < length (drop a xs)" using a i by simp
  ultimately have "take (Suc i - a) (drop a xs) = take (i - a) (drop a xs) @ [drop a xs ! (i - a)]"
    by (simp add: take_Suc_conv_app_nth)
  then show ?thesis using a i by (simp add: slice_def)
qed

lemma slice_single: "i < length xs \<Longrightarrow> slice i (Suc i) xs = [xs ! i]"
  by (simp add: slice_def take_Suc_conv_app_nth)

lemma slice_nonempty: "a < b \<Longrightarrow> a < length xs \<Longrightarrow> slice a b xs \<noteq> []"
  by (simp add: slice_def)

lemma slice_subset: "set (slice a b xs) \<subseteq> set xs"
  unfolding slice_def by (meson set_drop_subset set_take_subset subset_trans)

lemma chunk_loop_runs:
  assumes "chunk_loop threshold vecs i rest st = Inr st'"
    and "rest = drop i sentences" and "i \<le> length sentences"
    and "tiles 0 rs a" and "a < i"
    and "chunks st = map (\<lambda>(a, b). join '' '' (slice a b sentences)) rs"
    and "currentChunk st = join '' '' (slice a i sentences)"
    and "currentVec st = vecs ! a"
    and "closed_runs threshold vecs rs"
    and "\<forall>j\<in>{Suc a..<i}. similar_to threshold vecs a j"
  shows "\<exists>rs' a'. tiles 0 rs' a' \<and> a' < length sentences \<and>
           chunks st' = map (\<lambda>(a, b). join '' '' (slice a b sentences)) rs' \<and>
           currentChunk st' = join '' '' (slice a' (length sentences) sentences) \<and>
           currentVec st' = vecs ! a' \<and>
           closed_runs threshold vecs rs' \<and>
           (\<forall>j\<in>{Suc a'..<length sentences}. similar_to threshold vecs a' j)"
  using assms
proof (induction rest arbitrary: i st rs a)
  case Nil
  then have "i = length sentences" by simp
  with Nil show ?case by auto
next
  case (Cons s rest)
  from Cons.prems(2) have i: "i < length sentences"
    by (metis drop_all list.distinct(1) not_le)
  with Cons.prems(2) have s: "s = sentences ! i" and rest: "rest = drop (Suc i) sentences"
    by (simp_all add: Cons_nth_drop_Suc[symmetric])
  from Cons.prems(1) obtain st1 where
    body: "loop_body threshold vecs i s st = Inr st1" and
    loop: "chunk_loop threshold vecs (Suc i) rest st1 = Inr st'"
    by (auto split: sum.splits)
  from body have inrange: "i < length vecs"
    by (auto simp: loop_body_def split: if_splits)
  show ?case
  proof (cases "similar_to threshold vecs a i")
    case True
    with body inrange Cons.prems(8)
    have st1: "st1 = st\<lparr>currentChunk := currentChunk st @ '' '' @ s\<rparr>"
      by (simp add: loop_body_def similar_to_def)
    have "slice a i sentences \<noteq> []" using Cons.prems(5) i by (intro slice_nonempty) simp_all
    then have cur: "currentChunk st1 = join '' '' (slice a (Suc i) sentences)"
      using st1 Cons.prems(5,7) i s by (simp add: slice_Suc join_snoc)
    have sim: "\<forall>j\<in>{Suc a..<Suc i}. similar_to threshold vecs a j"
      using Cons.prems(10) True by (auto simp: less_Suc_eq)
    show ?thesis
      by (rule Cons.IH[OF loop rest _ Cons.prems(4) _ _ cur _ Cons.prems(9) sim])
         (use i Cons.prems(5,6,8) st1 in simp_all)
  next
    case False
    with body inrange Cons.prems(8)
    have st1: "st1 = \<lparr>chunks = chunks st @ [currentChunk st], currentChunk = s,
        currentVec = vecs ! i\<rparr>"
      by (simp add: loop_body_def similar_to_def)
    have t: "tiles 0 (rs @ [(a, i)]) i" using Cons.prems(4,5) by (simp add: tiles_snoc)
    have ch: "chunks st1 = map (\<lambda>(a, b). join '' '' (slice a b sentences)) (rs @ [(a, i)])"
      using st1 Cons.prems(6,7) by simp
    have cur: "currentChunk st1 = join '' '' (slice i (Suc i) sentences)"
      using st1 s i by (simp add: slice_single)
    have cl: "closed_runs threshold vecs (rs @ [(a, i)])"
      using Cons.prems(9,10) False by (auto simp: closed_runs_def)
    show ?thesis
      by (rule Cons.IH[OF loop rest _ t _ ch cur _ cl]) (use i st1 in simp_all)
  qed
qed

lemma merge_sentences_runs:
  assumes "merge_sentences sentences vecs threshold = Inr out" and "[] \<notin> set sentences"
  shows "\<exists>runs. anchored_runs threshold vecs (length sentences) runs \<and>
           out = map (\<lambda>(a, b). join '' '' (slice a b sentences)) runs"
proof (cases sentences)
  case Nil
  with assms(1) have "out = []" by (simp add: merge_sentences_def)
  with Nil show ?thesis by (intro exI[of _ "[]"]) (simp add: anchored_runs_def)
next
  case (Cons s0 rest)
  with assms(2) have s0: "s0 \<noteq> []" by auto
  show ?thesis
  proof (cases vecs)
    case Nil
    with Cons assms(1) s0 have "rest = []" "out = [s0]"
      by (auto simp: merge_sentences_def split: if_splits)
    with Cons show ?thesis
      by (intro exI[of _ "[(0, 1)]"]) (simp add: anchored_runs_def slice_def)
  next
    case (Cons v0 vs)
    let ?st = "\<lparr>chunks = [], currentChunk = s0, currentVec = v0\<rparr>"
    from Cons \<open>sentences = s0 # rest\<close> assms(1) obtain st where
      loop: "chunk_loop threshold vecs 1 rest ?st = Inr st"
      and out: "out = (if currentChunk st \<noteq> [] then chunks st @ [currentChunk st] else chunks st)"
      by (auto simp: merge_sentences_def split: sum.splits)
    have "\<exists>rs' a'. tiles 0 rs' a' \<and> a' < length sentences \<and>
           chunks st = map (\<lambda>(a, b). join '' '' (slice a b sentences)) rs' \<and>
           currentChunk st = join '' '' (slice a' (length sentences) sentences) \<and>
           currentVec st = vecs ! a' \<and>
           closed_runs threshold vecs rs' \<and>
           (\<forall>j\<in>{Suc a'..<length sentences}. similar_to threshold vecs a' j)"
      by (rule chunk_loop_runs[OF loop, where rs = "[]" and a = 0])
         (use Cons \<open>sentences = s0 # rest\<close> in \<open>simp_all add: slice_def closed_runs_def\<close>)
    then obtain rs a where r: "tiles 0 rs a" "a < length sentences"
      "chunks st = map (\<lambda>(a, b). join '' '' (slice a b sentences)) rs"
      "currentChunk st = join '' '' (slice a (length sentences) sentences)"
      "closed_runs threshold vecs rs"
      "\<forall>j\<in>{Suc a..<length sentences}. similar_to threshold vecs a j" by blast
    let ?n = "length sentences"
    have ne: "slice a ?n sentences \<noteq> []" using r(2) by (intro slice_nonempty) simp_all
    have "[] \<notin> set (slice a ?n sentences)" using assms(2) slice_subset by fastforce
    with ne have "currentChunk st \<noteq> []" using r(4) by (simp add: join_nonempty)
    with out r(3,4) have o: "out = map (\<lambda>(a, b). join '' '' (slice a b sentences)) (rs @ [(a, ?n)])"
      by simp
    have "anchored_runs threshold vecs ?n (rs @ [(a, ?n)])"
      using r(1,2,5,6) by (auto simp: anchored_runs_def tiles_snoc closed_runs_def)
    with o show ?thesis by blast
  qed
qed


text \<open>The runs are determined by the similarities to the sentences that open them.\<close>

lemma tiles_le: "tiles lo rs hi \<Longrightarrow> lo \<le> hi"
proof (induction rs arbitrary: lo)
  case Nil
  then show ?case by simp
next
  case (Cons x rs)
  obtain a b where "x = (a, b)" by (cases x)
  with Cons.prems have "a = lo" "a < b" "tiles b rs hi" by auto
  with Cons.IH[of b] show ?case by simp
qed

lemma anchored_runs_unique_from:
  assumes "tiles lo r1 n" and "tiles lo r2 n"
    and "\<forall>(a, b)\<in>set r1. (\<forall>j\<in>{Suc a..<b}. similar_to threshold vecs a j) \<and>
                         (b < n \<longrightarrow> \<not> similar_to threshold vecs a b)"
    and "\<forall>(a, b)\<in>set r2. (\<forall>j\<in>{Suc a..<b}. similar_to threshold vecs a j) \<and>
                         (b < n \<longrightarrow> \<not> similar_to threshold vecs a b)"
  shows "r1 = r2"
  using assms
proof (induction r1 arbitrary: lo r2)
  case Nil
  then have lo: "lo = n" by simp
  show ?case
  proof (cases r2)
    case Nil
    then show ?thesis by simp
  next
    case (Cons y ys)
    obtain a b where "y = (a, b)" by (cases y)
    with Nil.prems(2) Cons lo have "n < b" "tiles b ys n" by auto
    with tiles_le[of b ys n] show ?thesis by simp
  qed
next
  case (Cons x r1)
  obtain a b where x: "x = (a, b)" by (cases x)
  with Cons.prems(1) have a: "a = lo" "a < b" and t1: "tiles b r1 n" by auto
  from t1 have bn: "b \<le> n" by (rule tiles_le)
  from Cons.prems(2) a bn obtain b' r2' where r2: "r2 = (a, b') # r2'" and ab': "a < b'"
    and t2: "tiles b' r2' n"
    by (cases r2) auto
  from t2 have b'n: "b' \<le> n" by (rule tiles_le)
  have "b = b'"
  proof (rule ccontr)
    assume "b \<noteq> b'"
    then consider "b < b'" | "b' < b" by linarith
    then show False
    proof cases
      case 1
      then have "similar_to threshold vecs a b" using Cons.prems(4) r2 a by auto
      moreover have "\<not> similar_to threshold vecs a b" using Cons.prems(3) x 1 b'n by auto
      ultimately show False by simp
    next
      case 2
      then have "similar_to threshold vecs a b'" using Cons.prems(3) x ab' by auto
      moreover have "\<not> similar_to threshold vecs a b'" using Cons.prems(4) r2 2 bn by auto
      ultimately show False by simp
    qed
  qed
  moreover have "r1 = r2'"
    using Cons.prems(3,4) x r2 t1 t2 \<open>b = b'\<close> by (intro Cons.IH[of b r2']) auto
  ultimately show ?case using x r2 by simp
qed

lemma anchored_runs_unique:
  "anchored_runs threshold vecs n r1 \<Longrightarrow> anchored_runs threshold vecs n r2 \<Longrightarrow> r1 = r2"
  unfolding anchored_runs_def by (blast intro: anchored_runs_unique_from)

text \<open>
  C4, as the code has it. At sentence \<open>i\<close>, with \<open>sim\<close> the cosine similarity of the anchor
  vector and the vector of sentence \<open>i\<close>: when \<open>sim >= threshold\<close> the sentence is appended
  to the current chunk behind a space, and the emitted chunks and the anchor vector stay
  as they were; when not, be it that \<open>sim\<close> is below the threshold or that it is \<open>NaN\<close>, the
  current chunk is emitted, sentence \<open>i\<close> opens the new chunk and its vector becomes the
  anchor. Over the whole loop the anchor is the vector of the sentence that opened the
  current run: the chunks are the runs of sentences, joined by spaces, in which every
  further sentence is similar to the one that opened its run and the sentence that opens
  the next run is not.
\<close>

theorem anchor_kept_until_boundary:
  "(i < length vecs \<longrightarrow>
      (js_ge (cosineSimilarity (currentVec st) (vecs ! i)) threshold \<longrightarrow>
         loop_body threshold vecs i sentence st =
           Inr \<lparr>chunks = chunks st, currentChunk = currentChunk st @ '' '' @ sentence,
                currentVec = currentVec st\<rparr>)
    \<and> (\<not> js_ge (cosineSimilarity (currentVec st) (vecs ! i)) threshold \<longrightarrow>
         loop_body threshold vecs i sentence st =
           Inr \<lparr>chunks = chunks st @ [currentChunk st], currentChunk = sentence,
                currentVec = vecs ! i\<rparr>))
   \<and> (merge_sentences sentences vecs threshold = Inr out \<and> [] \<notin> set sentences \<longrightarrow>
        (\<exists>runs. anchored_runs threshold vecs (length sentences) runs \<and>
                 out = map (\<lambda>(a, b). join '' '' (slice a b sentences)) runs))"
proof (intro conjI impI)
  assume "merge_sentences sentences vecs threshold = Inr out \<and> [] \<notin> set sentences"
  then show "\<exists>runs. anchored_runs threshold vecs (length sentences) runs \<and>
                 out = map (\<lambda>(a, b). join '' '' (slice a b sentences)) runs"
    using merge_sentences_runs by blast
qed (simp_all add: loop_body_def)

text \<open>Three sentences whose neighbours are similar (0.5, the threshold) while the first and
  the last are not (0): the last sentence is measured against the first, which opened the
  run, and opens a new chunk.\<close>

lemma sim01: "cosineSimilarity [Fin 2, Fin 0, Fin 0, Fin 0] [Fin 1, Fin 1, Fin 1, Fin 1] = Fin (1 / 2)"
  by (simp add: cosineSimilarity_def dotProduct_def magnitude_def js_nth_def
      rnd_one rnd_numeral rnd_half)

lemma sim12: "cosineSimilarity [Fin 1, Fin 1, Fin 1, Fin 1] [Fin 0, Fin 0, Fin 0, Fin 2] = Fin (1 / 2)"
  by (simp add: cosineSimilarity_def dotProduct_def magnitude_def js_nth_def
      rnd_one rnd_numeral rnd_half)

lemma sim02: "cosineSimilarity [Fin 2, Fin 0, Fin 0, Fin 0] [Fin 0, Fin 0, Fin 0, Fin 2] = Fin 0"
  by (simp add: cosineSimilarity_def dotProduct_def magnitude_def js_nth_def
      rnd_one rnd_numeral rnd_half)

theorem anchor_kept_until_boundary_witness:
  "merge_sentences [''a.'', ''b.'', ''c.'']
      [[Fin 2, Fin 0, Fin 0, Fin 0], [Fin 1, Fin 1, Fin 1, Fin 1], [Fin 0, Fin 0, Fin 0, Fin 2]]
      (Fin (1 / 2)) = Inr [''a. b.'', ''c.'']
   \<and> similar_to (Fin (1 / 2))
        [[Fin 2, Fin 0, Fin 0, Fin 0], [Fin 1, Fin 1, Fin 1, Fin 1], [Fin 0, Fin 0, Fin 0, Fin 2]] 1 2
   \<and> \<not> similar_to (Fin (1 / 2))
        [[Fin 2, Fin 0, Fin 0, Fin 0], [Fin 1, Fin 1, Fin 1, Fin 1], [Fin 0, Fin 0, Fin 0, Fin 2]] 0 2
   \<and> (\<exists>runs. anchored_runs (Fin (1 / 2))
           [[Fin 2, Fin 0, Fin 0, Fin 0], [Fin 1, Fin 1, Fin 1, Fin 1], [Fin 0, Fin 0, Fin 0, Fin 2]]
           3 runs
        \<and> [''a. b.'', ''c.''] = map (\<lambda>(a, b). join '' '' (slice a b [''a.'', ''b.'', ''c.''])) runs)"
proof -
  let ?vecs = "[[Fin 2, Fin 0, Fin 0, Fin 0], [Fin 1, Fin 1, Fin 1, Fin 1],
                [Fin 0, Fin 0, Fin 0, Fin 2]]"
  have m: "merge_sentences [''a.'', ''b.'', ''c.''] ?vecs (Fin (1 / 2)) = Inr [''a. b.'', ''c.'']"
    by (simp add: merge_sentences_def loop_body_def sim01 sim02)
  have s12: "similar_to (Fin (1 / 2)) ?vecs 1 2" by (simp add: similar_to_def sim12)
  have s02: "\<not> similar_to (Fin (1 / 2)) ?vecs 0 2" by (simp add: similar_to_def sim02)
  have "\<exists>runs. anchored_runs (Fin (1 / 2)) ?vecs 3 runs
        \<and> [''a. b.'', ''c.''] = map (\<lambda>(a, b). join '' '' (slice a b [''a.'', ''b.'', ''c.''])) runs"
    using anchor_kept_until_boundary[where sentences = "[''a.'', ''b.'', ''c.'']"
        and vecs = ?vecs and threshold = "Fin (1 / 2)" and out = "[''a. b.'', ''c.'']",
        THEN conjunct2] m
    by (simp add: numeral_3_eq_3)
  with m s12 s02 show ?thesis by simp
qed

text \<open>The chunk is also emitted when the similarity is \<open>NaN\<close>, which is not below the
  threshold.\<close>

theorem nan_similarity_emits:
  "loop_body (Fin 0.75) [[Fin 1, Fin 0], [Fin 0, Fin 0]] 1 ''b.''
      \<lparr>chunks = [], currentChunk = ''a.'', currentVec = [Fin 1, Fin 0]\<rparr> =
     Inr \<lparr>chunks = [''a.''], currentChunk = ''b.'', currentVec = [Fin 0, Fin 0]\<rparr>
   \<and> \<not> js_lt (cosineSimilarity [Fin 1, Fin 0] [Fin 0, Fin 0]) (Fin 0.75)"
proof -
  have "cosineSimilarity [Fin 1, Fin 0] [Fin 0, Fin 0] = NaN"
    by (rule cosine_all_zero) simp
  then show ?thesis by (simp add: loop_body_def)
qed

section \<open>The calls a request makes\<close>

lemma extends_refl: "extends P w w"
  by (simp add: extends_def)

lemma extends_same_trace: "trace w' = trace w \<Longrightarrow> extends P w w'"
  by (simp add: extends_def)

lemma extends_trans: "extends P w w1 \<Longrightarrow> extends P w1 w2 \<Longrightarrow> extends P w w2"
  unfolding extends_def
proof -
  assume "\<exists>new. trace w1 = trace w @ new \<and> (\<forall>cl\<in>set new. P cl)"
    and "\<exists>new. trace w2 = trace w1 @ new \<and> (\<forall>cl\<in>set new. P cl)"
  then obtain n1 n2 where "trace w1 = trace w @ n1" "\<forall>cl\<in>set n1. P cl"
    "trace w2 = trace w1 @ n2" "\<forall>cl\<in>set n2. P cl" by blast
  then have "trace w2 = trace w @ (n1 @ n2) \<and> (\<forall>cl\<in>set (n1 @ n2). P cl)" by auto
  then show "\<exists>new. trace w2 = trace w @ new \<and> (\<forall>cl\<in>set new. P cl)" by blast
qed

lemma extends_called: "P cl \<Longrightarrow> trace w1 = trace w \<Longrightarrow> extends P w (called cl w1)"
  by (simp add: extends_def called_def)

lemma getEmbeddings_extends:
  "getEmbeddings e texts w = (r, w') \<Longrightarrow> P (FeatureExtraction texts) \<Longrightarrow> extends P w w'"
  by (auto simp: getEmbeddings_def Let_def extends_def called_def split: sum.splits)

lemma getEmbeddings_frame:
  "getEmbeddings e texts w = (r, w') \<Longrightarrow> collection w' = collection w \<and> disk w' = disk w"
  by (auto simp: getEmbeddings_def Let_def called_def split: sum.splits)

lemma getEmbeddings_v3_extends:
  "getEmbeddings_v3 e texts w = (r, w') \<Longrightarrow> P (FeatureExtraction texts) \<Longrightarrow> extends P w w'"
  by (auto simp: getEmbeddings_v3_def Let_def extends_def called_def split: sum.splits)

lemma getEmbeddings_v3_frame:
  "getEmbeddings_v3 e texts w = (r, w') \<Longrightarrow>
     collection w' = collection w \<and> disk w' = disk w \<and> console_log w' = console_log w"
  by (auto simp: getEmbeddings_v3_def Let_def called_def split: sum.splits)

lemma semanticChunking_extends:
  assumes "semanticChunking e txt threshold w = (r, w')" and "\<And>xs. P (FeatureExtraction xs)"
  shows "extends P w w'"
  using assms
  by (auto simp: semanticChunking_def chunk_sentences_def extends_refl
      split: if_splits prod.splits sum.splits dest: getEmbeddings_extends)

lemma semanticChunking_frame:
  "semanticChunking e txt threshold w = (r, w') \<Longrightarrow> collection w' = collection w \<and> disk w' = disk w"
  by (auto simp: semanticChunking_def chunk_sentences_def
      split: if_splits prod.splits sum.splits dest: getEmbeddings_frame)

lemma semanticChunking_v3_extends:
  assumes "semanticChunking_v3 e txt threshold w = (r, w')" and "\<And>xs. P (FeatureExtraction xs)"
  shows "extends P w w'"
  using assms
  by (auto simp: semanticChunking_v3_def chunk_sentences_v3_def extends_refl
      split: if_splits prod.splits sum.splits dest: getEmbeddings_v3_extends)

lemma semanticChunking_v3_frame:
  "semanticChunking_v3 e txt threshold w = (r, w') \<Longrightarrow>
     collection w' = collection w \<and> disk w' = disk w \<and> console_log w' = console_log w"
  by (auto simp: semanticChunking_v3_def chunk_sentences_v3_def
      split: if_splits prod.splits sum.splits dest: getEmbeddings_v3_frame)

lemma tag_chunks_ctx: "ch \<in> set (tag_chunks name c cs) \<Longrightarrow> ctx (metadata ch) = c"
  by (auto simp: tag_chunks_def)

lemma index_files_extends:
  assumes "index_files e c fs acc w = (r, w')" and "\<And>xs. P (FeatureExtraction xs)"
  shows "extends P w w' \<and> collection w' = collection w"
  using assms(1)
proof (induction fs arbitrary: acc w)
  case Nil
  then show ?case by (simp add: extends_refl)
next
  case (Cons f fs)
  show ?case
  proof (cases "disk w (path f)")
    case None
    with Cons.prems show ?thesis by (simp add: extends_refl)
  next
    case (Some content)
    obtain r1 w1 where sc: "semanticChunking e content (CHUNK_THRESHOLD e) w = (r1, w1)"
      by (cases "semanticChunking e content (CHUNK_THRESHOLD e) w")
    have e1: "extends P w w1" by (rule semanticChunking_extends[OF sc]) (rule assms(2))
    have f1: "collection w1 = collection w" using semanticChunking_frame[OF sc] by simp
    show ?thesis
    proof (cases r1)
      case (Inl err)
      with Cons.prems Some sc e1 f1 show ?thesis by simp
    next
      case (Inr cs)
      show ?thesis
      proof (cases "disk w1 (path f)")
        case None
        with Cons.prems Some sc Inr e1 f1 show ?thesis by simp
      next
        case (Some u)
        let ?w2 = "w1\<lparr>disk := (disk w1)((path f) := None)\<rparr>"
        from Cons.prems \<open>disk w (path f) = Some content\<close> sc Inr Some
        have rec: "index_files e c fs (acc @ tag_chunks (originalname f) c cs) ?w2 = (r, w')"
          by simp
        from Cons.IH[OF rec] have "extends P ?w2 w'" "collection w' = collection ?w2" by auto
        moreover have "extends P w ?w2" using e1 by (simp add: extends_def)
        ultimately show ?thesis using f1 by (auto intro: extends_trans)
      qed
    qed
  qed
qed

lemma index_files_ctx:
  "index_files e c fs acc w = (Inr staged, w') \<Longrightarrow> \<forall>ch\<in>set acc. ctx (metadata ch) = c
     \<Longrightarrow> \<forall>ch\<in>set staged. ctx (metadata ch) = c"
proof (induction fs arbitrary: acc w)
  case Nil
  then show ?case by simp
next
  case (Cons f fs)
  from Cons.prems(1) obtain content cs w1 u where
    "index_files e c fs (acc @ tag_chunks (originalname f) c cs)
        (w1\<lparr>disk := (disk w1)((path f) := None)\<rparr>) = (Inr staged, w')"
    by (auto split: option.splits prod.splits sum.splits)
  moreover have "\<forall>ch\<in>set (acc @ tag_chunks (originalname f) c cs). ctx (metadata ch) = c"
    using Cons.prems(2) by (auto dest: tag_chunks_ctx)
  ultimately show ?case by (rule Cons.IH)
qed


lemma upload_files_extends:
  assumes "upload_files e c fs acc w = (r, w')" and "\<And>xs. P (FeatureExtraction xs)"
  shows "extends P w w'"
  using assms(1)
proof (induction fs arbitrary: acc w)
  case Nil
  then show ?case by (simp add: extends_refl)
next
  case (Cons f fs)
  show ?case
  proof (cases "disk w (path f)")
    case None
    with Cons.prems show ?thesis by (simp add: extends_refl)
  next
    case (Some content)
    obtain r1 w1 where sc: "semanticChunking_v3 e content (CHUNK_THRESHOLD e) w = (r1, w1)"
      by (cases "semanticChunking_v3 e content (CHUNK_THRESHOLD e) w")
    have e1: "extends P w w1" by (rule semanticChunking_v3_extends[OF sc]) (rule assms(2))
    show ?thesis
    proof (cases r1)
      case (Inl err)
      with Cons.prems Some sc e1 show ?thesis by simp
    next
      case (Inr cs)
      show ?thesis
      proof (cases "disk w1 (path f)")
        case None
        with Cons.prems Some sc Inr e1 show ?thesis by simp
      next
        case (Some u)
        let ?w2 = "w1\<lparr>disk := (disk w1)((path f) := None)\<rparr>"
        from Cons.prems \<open>disk w (path f) = Some content\<close> sc Inr Some
        have rec: "upload_files e c fs (acc @ tag_chunks (originalname f) c cs) ?w2 = (r, w')"
          by simp
        from Cons.IH[OF rec] have "extends P ?w2 w'" .
        moreover have "extends P w ?w2" using e1 by (simp add: extends_def)
        ultimately show ?thesis by (auto intro: extends_trans)
      qed
    qed
  qed
qed

lemma upload_files_ctx:
  "upload_files e c fs acc w = (Inr staged, w') \<Longrightarrow> \<forall>ch\<in>set acc. ctx (metadata ch) = c
     \<Longrightarrow> \<forall>ch\<in>set staged. ctx (metadata ch) = c"
proof (induction fs arbitrary: acc w)
  case Nil
  then show ?case by simp
next
  case (Cons f fs)
  from Cons.prems(1) obtain content cs w1 u where
    "upload_files e c fs (acc @ tag_chunks (originalname f) c cs)
        (w1\<lparr>disk := (disk w1)((path f) := None)\<rparr>) = (Inr staged, w')"
    by (auto split: option.splits prod.splits sum.splits)
  moreover have "\<forall>ch\<in>set (acc @ tag_chunks (originalname f) c cs). ctx (metadata ch) = c"
    using Cons.prems(2) by (auto dest: tag_chunks_ctx)
  ultimately show ?case by (rule Cons.IH)
qed

lemma indexed_snd: "(x, i) \<in> set (indexed xs) \<Longrightarrow> x \<in> set xs"
  by (auto simp: indexed_def dest: set_zip_leftD)

lemma index_store_extends:
  assumes "index_store e c staged w = (r, w')"
    and "collection w = Some Damian_Ingested"
    and "\<forall>ch\<in>set staged. ctx (metadata ch) = c"
  shows "extends (ingest_call_ok c) w w'"
proof -
  obtain r1 w1 where ge: "getEmbeddings e (map chunk_text staged) w = (r1, w1)"
    by (cases "getEmbeddings e (map chunk_text staged) w")
  have e1: "extends (ingest_call_ok c) w w1" by (rule getEmbeddings_extends[OF ge]) simp
  have c1: "collection w1 = Some Damian_Ingested" using getEmbeddings_frame[OF ge] assms(2) by simp
  show ?thesis
  proof (cases r1)
    case (Inl err)
    with assms(1) ge e1 show ?thesis by (simp add: index_store_def)
  next
    case (Inr embeddings)
    let ?all = "map (\<lambda>(ch, i). ch\<lparr>embedding := item_at embeddings i\<rparr>) (indexed staged)"
    have tagged: "\<forall>m\<in>set (map metadata ?all). ctx m = c"
      using assms(3) by (auto dest: indexed_snd)
    let ?up = "Upsert Damian_Ingested (map (\<lambda>(_, i). c @ ''-'' @ decimal i) (indexed ?all))
                 (map chunk_text ?all) (map embedding ?all) (map metadata ?all)"
    have ok: "ingest_call_ok c ?up" using tagged by (simp add: Damian_Ingested_def)
    have "w' = called ?up w1"
      using assms(1) ge Inr c1 by (auto simp: index_store_def Let_def split: option.splits)
    then have "extends (ingest_call_ok c) w1 w'" using ok by (simp add: extends_called)
    with e1 show ?thesis by (rule extends_trans)
  qed
qed

lemma index_try_extends:
  assumes "index_try e req fs w = (r, w')"
  shows "extends (ingest_call_ok (request_context e req)) w w'"
proof -
  let ?c = "request_context e req"
  let ?w1 = "called (GetOrCreateCollection Damian_Ingested) w"
  have e1: "extends (ingest_call_ok ?c) w ?w1"
    by (rule extends_called) (simp_all add: Damian_Ingested_def)
  show ?thesis
  proof (cases "getOrCreateCollection e (trace ?w1)")
    case (Some err)
    with assms e1 show ?thesis by (simp add: index_try_def Let_def)
  next
    case None
    let ?w1' = "?w1\<lparr>collection := Some Damian_Ingested\<rparr>"
    obtain r2 w2 where fl: "index_files e ?c fs [] ?w1' = (r2, w2)"
      by (cases "index_files e ?c fs [] ?w1'")
    have "extends (ingest_call_ok ?c) ?w1' w2 \<and> collection w2 = collection ?w1'"
      by (rule index_files_extends[OF fl]) simp
    then have e2: "extends (ingest_call_ok ?c) ?w1 w2" and c2: "collection w2 = Some Damian_Ingested"
      by (simp_all add: extends_def)
    show ?thesis
    proof (cases r2)
      case (Inl err)
      with assms None fl have "w' = w2" by (simp add: index_try_def Let_def)
      with e1 e2 show ?thesis by (auto intro: extends_trans)
    next
      case (Inr staged)
      with assms None fl have st: "index_store e ?c staged w2 = (r, w')"
        by (simp add: index_try_def Let_def)
      have "\<forall>ch\<in>set staged. ctx (metadata ch) = ?c"
        using fl Inr index_files_ctx[of e ?c fs "[]" ?w1' staged w2] by simp
      then have "extends (ingest_call_ok ?c) w2 w'" by (rule index_store_extends[OF st c2])
      with e1 e2 show ?thesis by (auto intro: extends_trans)
    qed
  qed
qed

lemma index_handler_extends:
  "extends (ingest_call_ok (request_context e req)) w (snd (index_handler e req w))"
  by (auto simp: index_handler_def extends_refl split: option.splits prod.splits sum.splits
      dest: index_try_extends)


lemma upload_store_extends:
  assumes "upload_store e c allChunks w = (r, w')"
    and "\<forall>ch\<in>set allChunks. ctx (metadata ch) = c"
  shows "extends (ingest_call_ok c) w w'"
proof -
  obtain r1 w1 where ge: "getEmbeddings_v3 e (map chunk_text allChunks) w = (r1, w1)"
    by (cases "getEmbeddings_v3 e (map chunk_text allChunks) w")
  have e1: "extends (ingest_call_ok c) w w1" by (rule getEmbeddings_v3_extends[OF ge]) simp
  show ?thesis
  proof (cases r1)
    case (Inl err)
    with assms(1) ge e1 show ?thesis by (simp add: upload_store_def)
  next
    case (Inr embeddings)
    let ?up = "Upsert Damian_Ingested
                 (map (\<lambda>(_, i). c @ ''-'' @ decimal (Date_now e i) @ ''-'' @ decimal i)
                    (indexed allChunks))
                 (map chunk_text allChunks) (items embeddings) (map metadata allChunks)"
    have ok: "ingest_call_ok c ?up" using assms(2) by (simp add: Damian_Ingested_def)
    have "w' = called ?up w1"
      using assms(1) ge Inr by (auto simp: upload_store_def Let_def split: option.splits)
    then have "extends (ingest_call_ok c) w1 w'" using ok by (simp add: extends_called)
    with e1 show ?thesis by (rule extends_trans)
  qed
qed

lemma upload_try_extends:
  assumes "upload_try e req fs w = (r, w')"
  shows "extends (ingest_call_ok (request_context e req)) w w'"
proof -
  let ?c = "request_context e req"
  let ?w1 = "called (GetOrCreateCollection Damian_Ingested) w"
  have e1: "extends (ingest_call_ok ?c) w ?w1"
    by (rule extends_called) (simp_all add: Damian_Ingested_def)
  show ?thesis
  proof (cases "getOrCreateCollection e (trace ?w1)")
    case (Some err)
    with assms e1 show ?thesis by (simp add: upload_try_def Let_def)
  next
    case None
    obtain r2 w2 where fl: "upload_files e ?c fs [] ?w1 = (r2, w2)"
      by (cases "upload_files e ?c fs [] ?w1")
    have e2: "extends (ingest_call_ok ?c) ?w1 w2"
      by (rule upload_files_extends[OF fl]) simp
    show ?thesis
    proof (cases r2)
      case (Inl err)
      with assms None fl have "w' = w2" by (simp add: upload_try_def Let_def)
      with e1 e2 show ?thesis by (auto intro: extends_trans)
    next
      case (Inr staged)
      with assms None fl have st: "upload_store e ?c staged w2 = (r, w')"
        by (simp add: upload_try_def Let_def)
      have "\<forall>ch\<in>set staged. ctx (metadata ch) = ?c"
        using fl Inr upload_files_ctx[of e ?c fs "[]" ?w1 staged w2] by simp
      then have "extends (ingest_call_ok ?c) w2 w'" by (rule upload_store_extends[OF st])
      with e1 e2 show ?thesis by (auto intro: extends_trans)
    qed
  qed
qed

lemma upload_handler_extends:
  "extends (ingest_call_ok (request_context e req)) w (snd (upload_handler e req w))"
  by (auto simp: upload_handler_def extends_refl split: option.splits prod.splits sum.splits
      dest: upload_try_extends)

lemma query_answer_extends:
  "query_answer e qq result w = (r, w') \<Longrightarrow> extends (query_call_ok f) w w'"
  by (auto simp: query_answer_def Let_def extends_refl extends_called
      split: sum.splits)

lemma chat_answer_extends:
  "chat_answer e qq result w = (r, w') \<Longrightarrow> extends (query_call_ok f) w w'"
  by (auto simp: chat_answer_def Let_def extends_refl extends_called
      split: sum.splits if_splits)

lemma query_collection_extends:
  "query_collection e req emb w = (r, w') \<Longrightarrow> collection w = Some Damian_Ingested \<Longrightarrow>
     extends (query_call_ok (where_filter (body_c req))) w w'"
  by (auto simp: query_collection_def Let_def extends_called Damian_Ingested_def
      split: sum.splits)

lemma query_try_extends:
  assumes "query_try e req qq w = (r, w')"
  shows "extends (query_call_ok (where_filter (body_c req))) w w'"
proof -
  let ?P = "query_call_ok (where_filter (body_c req))"
  obtain r1 w1 where ge: "getEmbeddings e [qq] w = (r1, w1)"
    by (cases "getEmbeddings e [qq] w")
  have e1: "extends ?P w w1" by (rule getEmbeddings_extends[OF ge]) simp
  show ?thesis
  proof (cases r1)
    case (Inl err)
    with assms ge e1 show ?thesis by (simp add: query_try_def)
  next
    case (Inr resp)
    let ?w2 = "called (GetOrCreateCollection Damian_Ingested) w1"
    have e2: "extends ?P w1 ?w2" by (rule extends_called) (simp_all add: Damian_Ingested_def)
    show ?thesis
    proof (cases "getOrCreateCollection e (trace ?w2)")
      case (Some err)
      with assms ge Inr have "w' = ?w2" by (simp add: query_try_def Let_def)
      with e1 e2 show ?thesis by (auto intro: extends_trans)
    next
      case None
      let ?w2' = "?w2\<lparr>collection := Some Damian_Ingested\<rparr>"
      obtain r3 w3 where qc: "query_collection e req (item_at resp 0) ?w2' = (r3, w3)"
        by (cases "query_collection e req (item_at resp 0) ?w2'")
      have "extends ?P ?w2' w3" by (rule query_collection_extends[OF qc]) simp
      then have e3: "extends ?P ?w2 w3" by (simp add: extends_def)
      show ?thesis
      proof (cases r3)
        case (Inl err)
        with assms ge Inr None qc have "w' = w3" by (simp add: query_try_def Let_def)
        with e1 e2 e3 show ?thesis by (auto intro: extends_trans)
      next
        case (Inr result)
        with assms ge \<open>r1 = Inr resp\<close> None qc have "query_answer e qq result w3 = (r, w')"
          by (simp add: query_try_def Let_def)
        then have "extends ?P w3 w'" by (rule query_answer_extends)
        with e1 e2 e3 show ?thesis by (auto intro: extends_trans)
      qed
    qed
  qed
qed

lemma chat_try_extends:
  assumes "chat_try e req qq w = (r, w')"
  shows "extends (query_call_ok (where_filter (body_c req))) w w'"
proof -
  let ?P = "query_call_ok (where_filter (body_c req))"
  obtain r1 w1 where ge: "getEmbeddings_v3 e [qq] w = (r1, w1)"
    by (cases "getEmbeddings_v3 e [qq] w")
  have e1: "extends ?P w w1" by (rule getEmbeddings_v3_extends[OF ge]) simp
  show ?thesis
  proof (cases r1)
    case (Inl err)
    with assms ge e1 show ?thesis by (simp add: chat_try_def)
  next
    case (Inr resp)
    let ?w2 = "called (GetOrCreateCollection Damian_Ingested) w1"
    have e2: "extends ?P w1 ?w2" by (rule extends_called) (simp_all add: Damian_Ingested_def)
    show ?thesis
    proof (cases "getOrCreateCollection e (trace ?w2)")
      case (Some err)
      with assms ge Inr have "w' = ?w2" by (simp add: chat_try_def Let_def)
      with e1 e2 show ?thesis by (auto intro: extends_trans)
    next
      case None
      let ?w3 = "called (Query Damian_Ingested (item_at resp 0)
                   (case body_k req of None \<Rightarrow> 5 | Some n \<Rightarrow> n)
                   (where_filter (body_c req))) ?w2"
      have e3: "extends ?P ?w2 ?w3" by (rule extends_called) (simp_all add: Damian_Ingested_def)
      show ?thesis
      proof (cases "query e (trace ?w3)")
        case (Inl err)
        with assms ge Inr None have "w' = ?w3" by (simp add: chat_try_def Let_def)
        with e1 e2 e3 show ?thesis by (auto intro: extends_trans)
      next
        case (Inr result)
        with assms ge \<open>r1 = Inr resp\<close> None have "chat_answer e qq result ?w3 = (r, w')"
          by (simp add: chat_try_def Let_def)
        then have "extends ?P ?w3 w'" by (rule chat_answer_extends)
        with e1 e2 e3 show ?thesis by (auto intro: extends_trans)
      qed
    qed
  qed
qed

lemma query_handler_extends:
  "extends (query_call_ok (where_filter (body_c req))) w (snd (query_handler e req w))"
  by (auto simp: query_handler_def extends_refl split: option.splits prod.splits sum.splits
      dest: query_try_extends)

lemma chat_handler_extends:
  "extends (query_call_ok (where_filter (body_c req))) w (snd (chat_handler e req w))"
  by (auto simp: chat_handler_def extends_refl split: option.splits prod.splits sum.splits
      dest: chat_try_extends)

text \<open>A request answered with status 200 did write to, or search, the collection.\<close>

lemma made_append: "trace w' = trace w @ xs \<Longrightarrow> made w w' = xs"
  by (simp add: made_def)

lemma made_mem:
  "extends P w w1 \<Longrightarrow> trace w' = trace w1 @ xs \<Longrightarrow> cl \<in> set xs \<Longrightarrow> cl \<in> set (made w w')"
  by (auto simp: extends_def made_def)

lemma index_store_upserts:
  assumes "index_store e c staged w = (Inr resp, w')" and "collection w = Some coll"
  shows "\<exists>ids docs embs metas.
           trace w' = trace w @ [FeatureExtraction (map chunk_text staged),
                                 Upsert coll ids docs embs metas]"
  using assms
  by (auto simp: index_store_def getEmbeddings_def called_def Let_def
      split: sum.splits option.splits)

lemma upload_store_upserts:
  assumes "upload_store e c staged w = (Inr resp, w')"
  shows "\<exists>ids docs embs metas.
           trace w' = trace w @ [FeatureExtraction (map chunk_text staged),
                                 Upsert Damian_Ingested ids docs embs metas]"
  using assms
  by (auto simp: upload_store_def getEmbeddings_v3_def called_def Let_def
      split: sum.splits option.splits)

lemma index_handler_upserts:
  assumes "status (fst (index_handler e req w)) = 200"
  shows "\<exists>ids docs embs metas.
           Upsert ''Damian_Ingested'' ids docs embs metas \<in> set (made w (snd (index_handler e req w)))"
proof -
  let ?c = "request_context e req"
  let ?w1 = "called (GetOrCreateCollection Damian_Ingested) w"
  let ?w1' = "?w1\<lparr>collection := Some Damian_Ingested\<rparr>"
  from assms obtain fs staged w2 resp w' where
    h: "index_handler e req w = (resp, w')" and
    fl: "index_files e ?c fs [] ?w1' = (Inr staged, w2)" and
    st: "index_store e ?c staged w2 = (Inr resp, w')"
    by (auto simp: index_handler_def index_try_def Let_def
        split: option.splits if_splits prod.splits sum.splits)
  have "extends (\<lambda>_. True) ?w1' w2 \<and> collection w2 = collection ?w1'"
    by (rule index_files_extends[OF fl]) simp
  then have e2: "extends (\<lambda>_. True) w w2" and c2: "collection w2 = Some Damian_Ingested"
    by (auto simp: extends_def called_def)
  from index_store_upserts[OF st c2] obtain ids docs embs metas where
    "trace w' = trace w2 @ [FeatureExtraction (map chunk_text staged),
                            Upsert Damian_Ingested ids docs embs metas]" by blast
  then have "Upsert Damian_Ingested ids docs embs metas \<in> set (made w w')"
    using e2 by (auto simp: extends_def made_def)
  then show ?thesis using h by (auto simp: Damian_Ingested_def)
qed

lemma upload_handler_upserts:
  assumes "status (fst (upload_handler e req w)) = 200"
  shows "\<exists>ids docs embs metas.
           Upsert ''Damian_Ingested'' ids docs embs metas \<in> set (made w (snd (upload_handler e req w)))"
proof -
  let ?c = "request_context e req"
  let ?w1 = "called (GetOrCreateCollection Damian_Ingested) w"
  from assms obtain fs staged w2 resp w' where
    h: "upload_handler e req w = (resp, w')" and
    fl: "upload_files e ?c fs [] ?w1 = (Inr staged, w2)" and
    st: "upload_store e ?c staged w2 = (Inr resp, w')"
    by (auto simp: upload_handler_def upload_try_def Let_def
        split: option.splits if_splits prod.splits sum.splits)
  have "extends (\<lambda>_. True) ?w1 w2"
    by (rule upload_files_extends[OF fl]) simp
  then have e2: "extends (\<lambda>_. True) w w2"
    by (auto simp: extends_def called_def)
  from upload_store_upserts[OF st] obtain ids docs embs metas where
    "trace w' = trace w2 @ [FeatureExtraction (map chunk_text staged),
                            Upsert Damian_Ingested ids docs embs metas]" by blast
  then have "Upsert Damian_Ingested ids docs embs metas \<in> set (made w w')"
    using e2 by (auto simp: extends_def made_def)
  then show ?thesis using h by (auto simp: Damian_Ingested_def)
qed

lemma where_filter_explicit:
  "where_filter cf = (if cf = None \<or> cf = Some [] then None else cf)"
  by (auto simp: where_filter_def split: option.splits)

lemma request_context_explicit:
  "request_context e req =
     (case context_header req of
        None \<Rightarrow> ''ctx-'' @ take 8 (randomUUID e)
      | Some h \<Rightarrow> if h = [] then ''ctx-'' @ take 8 (randomUUID e) else h)"
  by (simp add: request_context_def)


lemma query_collection_queries:
  assumes "query_collection e req emb w = (Inr result, w')" and "collection w = Some coll"
  shows "\<exists>k. trace w' = trace w @ [Query coll emb k (where_filter (body_c req))]"
  using assms
  by (auto simp: query_collection_def called_def Let_def split: sum.splits)

lemma query_try_queries:
  assumes "query_try e req qq w = (Inr resp, w')"
  shows "\<exists>emb k. Query Damian_Ingested emb k (where_filter (body_c req)) \<in> set (made w w')"
proof -
  from assms obtain r1 w1 where ge: "getEmbeddings e [qq] w = (Inr r1, w1)"
    by (auto simp: query_try_def split: prod.splits sum.splits)
  let ?w2 = "called (GetOrCreateCollection Damian_Ingested) w1"
  let ?w2' = "?w2\<lparr>collection := Some Damian_Ingested\<rparr>"
  from assms ge obtain result w3 where
    qc: "query_collection e req (item_at r1 0) ?w2' = (Inr result, w3)" and
    qa: "query_answer e qq result w3 = (Inr resp, w')"
    by (auto simp: query_try_def Let_def split: option.splits prod.splits sum.splits)
  have e1: "extends (\<lambda>_. True) w w1" by (rule getEmbeddings_extends[OF ge]) simp
  from query_collection_queries[OF qc] obtain k where
    t3: "trace w3 = trace ?w2' @ [Query Damian_Ingested (item_at r1 0) k (where_filter (body_c req))]"
    by auto
  have e3: "extends (query_call_ok None) w3 w'" using qa by (rule query_answer_extends)
  have "Query Damian_Ingested (item_at r1 0) k (where_filter (body_c req)) \<in> set (made w w')"
    using e1 t3 e3 by (auto simp: extends_def made_def called_def)
  then show ?thesis by blast
qed

lemma chat_try_queries:
  assumes "chat_try e req qq w = (Inr resp, w')"
  shows "\<exists>emb k. Query Damian_Ingested emb k (where_filter (body_c req)) \<in> set (made w w')"
proof -
  from assms obtain r1 w1 where ge: "getEmbeddings_v3 e [qq] w = (Inr r1, w1)"
    by (auto simp: chat_try_def split: prod.splits sum.splits)
  let ?w2 = "called (GetOrCreateCollection Damian_Ingested) w1"
  let ?w3 = "called (Query Damian_Ingested (item_at r1 0)
               (case body_k req of None \<Rightarrow> 5 | Some n \<Rightarrow> n)
               (where_filter (body_c req))) ?w2"
  from assms ge obtain result where
    qa: "chat_answer e qq result ?w3 = (Inr resp, w')"
    by (auto simp: chat_try_def Let_def split: option.splits prod.splits sum.splits)
  have e1: "extends (\<lambda>_. True) w w1" by (rule getEmbeddings_v3_extends[OF ge]) simp
  have e3: "extends (query_call_ok None) ?w3 w'" using qa by (rule chat_answer_extends)
  have "Query Damian_Ingested (item_at r1 0) (case body_k req of None \<Rightarrow> 5 | Some n \<Rightarrow> n)
          (where_filter (body_c req)) \<in> set (made w w')"
    using e1 e3 by (auto simp: extends_def made_def called_def)
  then show ?thesis by blast
qed

lemma query_handler_queries:
  assumes "status (fst (query_handler e req w)) = 200"
  shows "\<exists>emb k. Query ''Damian_Ingested'' emb k
            (if body_c req = None \<or> body_c req = Some [] then None else body_c req)
          \<in> set (made w (snd (query_handler e req w)))"
proof -
  from assms obtain qq resp w' where
    h: "query_handler e req w = (resp, w')" and t: "query_try e req qq w = (Inr resp, w')"
    by (auto simp: query_handler_def split: option.splits if_splits prod.splits sum.splits)
  from query_try_queries[OF t] h show ?thesis
    by (simp add: Damian_Ingested_def where_filter_explicit)
qed

lemma chat_handler_queries:
  assumes "status (fst (chat_handler e req w)) = 200"
  shows "\<exists>emb k. Query ''Damian_Ingested'' emb k
            (if body_c req = None \<or> body_c req = Some [] then None else body_c req)
          \<in> set (made w (snd (chat_handler e req w)))"
proof -
  from assms obtain qq resp w' where
    h: "chat_handler e req w = (resp, w')" and t: "chat_try e req qq w = (Inr resp, w')"
    by (auto simp: chat_handler_def split: option.splits if_splits prod.splits sum.splits)
  from chat_try_queries[OF t] h show ?thesis
    by (simp add: Damian_Ingested_def where_filter_explicit)
qed

text \<open>
  C10. Whatever the context, the calls an ingestion (\<open>/index\<close>, \<open>/upload\<close>) or a query
  (\<open>/query\<close>, \<open>/chat\<close>) makes to the store are all on the one collection named
  \<open>Damian_Ingested\<close>, and a request answered with status 200 has made its upsert or its
  search there. An ingestion separates contexts only by the \<open>context\<close> field of the
  metadata it writes: on every record it is the \<open>context\<close> header of the request, or the
  generated identifier when the header is missing or empty. A query separates them only by
  the filter it passes: equality with the \<open>c\<close> of the request when one is given, and no
  filter at all when \<open>c\<close> is missing or empty, so that the search is then not restricted to
  any context.
\<close>

theorem one_collection_for_all_contexts:
  "(\<forall>h. context_header ireq = Some h \<and> h \<noteq> [] \<longrightarrow>
       extends (ingest_call_ok h) w (snd (index_handler e ireq w)) \<and>
       extends (ingest_call_ok h) w (snd (upload_handler e ireq w)))
   \<and> (context_header ireq = None \<or> context_header ireq = Some [] \<longrightarrow>
       extends (ingest_call_ok (''ctx-'' @ take 8 (randomUUID e))) w
         (snd (index_handler e ireq w)) \<and>
       extends (ingest_call_ok (''ctx-'' @ take 8 (randomUUID e))) w
         (snd (upload_handler e ireq w)))
   \<and> (status (fst (index_handler e ireq w)) = 200 \<longrightarrow>
       (\<exists>ids docs embs metas. Upsert ''Damian_Ingested'' ids docs embs metas
          \<in> set (made w (snd (index_handler e ireq w)))))
   \<and> (status (fst (upload_handler e ireq w)) = 200 \<longrightarrow>
       (\<exists>ids docs embs metas. Upsert ''Damian_Ingested'' ids docs embs metas
          \<in> set (made w (snd (upload_handler e ireq w)))))
   \<and> extends (query_call_ok
         (if body_c qreq = None \<or> body_c qreq = Some [] then None else body_c qreq))
       w (snd (query_handler e qreq w))
   \<and> extends (query_call_ok
         (if body_c qreq = None \<or> body_c qreq = Some [] then None else body_c qreq))
       w (snd (chat_handler e qreq w))
   \<and> (status (fst (query_handler e qreq w)) = 200 \<longrightarrow>
       (\<exists>emb k. Query ''Damian_Ingested'' emb k
          (if body_c qreq = None \<or> body_c qreq = Some [] then None else body_c qreq)
        \<in> set (made w (snd (query_handler e qreq w)))))
   \<and> (status (fst (chat_handler e qreq w)) = 200 \<longrightarrow>
       (\<exists>emb k. Query ''Damian_Ingested'' emb k
          (if body_c qreq = None \<or> body_c qreq = Some [] then None else body_c qreq)
        \<in> set (made w (snd (chat_handler e qreq w)))))"
proof (intro conjI allI impI)
  fix h assume a: "context_header ireq = Some h \<and> h \<noteq> []"
  then have c: "request_context e ireq = h" by (simp add: request_context_def)
  show "extends (ingest_call_ok h) w (snd (index_handler e ireq w))"
    using index_handler_extends[of e ireq w] c by simp
  show "extends (ingest_call_ok h) w (snd (upload_handler e ireq w))"
    using upload_handler_extends[of e ireq w] c by simp
next
  assume a: "context_header ireq = None \<or> context_header ireq = Some []"
  then have c: "request_context e ireq = ''ctx-'' @ take 8 (randomUUID e)"
    by (auto simp: request_context_def)
  show "extends (ingest_call_ok (''ctx-'' @ take 8 (randomUUID e))) w
         (snd (index_handler e ireq w))"
    using index_handler_extends[of e ireq w] c by simp
  show "extends (ingest_call_ok (''ctx-'' @ take 8 (randomUUID e))) w
         (snd (upload_handler e ireq w))"
    using upload_handler_extends[of e ireq w] c by simp
next
  show "extends (query_call_ok
         (if body_c qreq = None \<or> body_c qreq = Some [] then None else body_c qreq))
       w (snd (query_handler e qreq w))"
    using query_handler_extends[of qreq w e] by (simp only: where_filter_explicit)
  show "extends (query_call_ok
         (if body_c qreq = None \<or> body_c qreq = Some [] then None else body_c qreq))
       w (snd (chat_handler e qreq w))"
    using chat_handler_extends[of qreq w e] by (simp only: where_filter_explicit)
qed (rule index_handler_upserts upload_handler_upserts query_handler_queries
      chat_handler_queries, assumption)+


theorem one_collection_for_all_contexts_witness:
  "trace (snd (index_handler healthy (upload_of ''A'' ''data/f1'' ''one.txt'')
                 (fresh [(''data/f1'', ''First.'')]))) =
     [GetOrCreateCollection ''Damian_Ingested'',
      FeatureExtraction [''First.''], FeatureExtraction [''First.''],
      Upsert ''Damian_Ingested'' [''A-0''] [''First.''] [Vector [Fin 1, Fin 0]]
        [\<lparr>source = ''one.txt'', part = 0, ctx = ''A''\<rparr>]]
   \<and> trace (snd (upload_handler healthy (upload_of ''B'' ''data/f1'' ''one.txt'')
                 (fresh [(''data/f1'', ''First.'')]))) =
     [GetOrCreateCollection ''Damian_Ingested'',
      FeatureExtraction [''First.''], FeatureExtraction [''First.''],
      Upsert ''Damian_Ingested'' [''B-1700000000000-0''] [''First.''] [Vector [Fin 1, Fin 0]]
        [\<lparr>source = ''one.txt'', part = 0, ctx = ''B''\<rparr>]]
   \<and> trace (snd (query_handler one_hit (question_in ''A'' ''x'') (fresh []))) =
     [FeatureExtraction [''x''], GetOrCreateCollection ''Damian_Ingested'',
      Query ''Damian_Ingested'' (Vector [Fin 1, Fin 0]) 5 (Some ''A''),
      GenerateContent (''Use the following context to answer the question.'' @ NL @ NL
        @ ''Source: one.txt#0'' @ NL @ ''First.'' @ NL @ NL @ ''Question: x'' @ NL @ ''Answer:'')]
   \<and> trace (snd (chat_handler one_hit (question_in ''A'' ''x'') (fresh []))) =
     [FeatureExtraction [''x''], GetOrCreateCollection ''Damian_Ingested'',
      Query ''Damian_Ingested'' (Vector [Fin 1, Fin 0]) 5 (Some ''A''),
      GenerateContent (''Use the following context to answer the question.'' @ NL @ NL
        @ ''Source: one.txt'' @ NL @ ''First.'' @ NL @ NL @ ''Question: x'' @ NL @ ''Answer:'')]
   \<and> trace (snd (chat_handler healthy (question ''x'') (fresh []))) =
     [FeatureExtraction [''x''], GetOrCreateCollection ''Damian_Ingested'',
      Query ''Damian_Ingested'' (Vector [Fin 1, Fin 0]) 5 None]
   \<and> extends (ingest_call_ok ''A'') (fresh [(''data/f1'', ''First.'')])
        (snd (index_handler healthy (upload_of ''A'' ''data/f1'' ''one.txt'')
                (fresh [(''data/f1'', ''First.'')])))
   \<and> extends (ingest_call_ok ''B'') (fresh [(''data/f1'', ''First.'')])
        (snd (upload_handler healthy (upload_of ''B'' ''data/f1'' ''one.txt'')
                (fresh [(''data/f1'', ''First.'')])))
   \<and> extends (query_call_ok (Some ''A'')) (fresh [])
        (snd (query_handler one_hit (question_in ''A'' ''x'') (fresh [])))
   \<and> extends (query_call_ok (Some ''A'')) (fresh [])
        (snd (chat_handler one_hit (question_in ''A'' ''x'') (fresh [])))
   \<and> extends (query_call_ok None) (fresh [])
        (snd (chat_handler healthy (question ''x'') (fresh [])))"
proof -
  let ?w = "fresh [(''data/f1'', ''First.'')]"
  have hA: "context_header (upload_of ''A'' ''data/f1'' ''one.txt'') = Some ''A'' \<and> ''A'' \<noteq> []"
    by (simp add: upload_of_def)
  have hB: "context_header (upload_of ''B'' ''data/f1'' ''one.txt'') = Some ''B'' \<and> ''B'' \<noteq> []"
    by (simp add: upload_of_def)
  have fA: "(if body_c (question_in ''A'' ''x'') = None \<or> body_c (question_in ''A'' ''x'') = Some []
             then None else body_c (question_in ''A'' ''x'')) = Some ''A''"
    by (simp add: question_in_def)
  have fN: "(if body_c (question ''x'') = None \<or> body_c (question ''x'') = Some []
             then None else body_c (question ''x'')) = None"
    by (simp add: question_def)
  have t1: "trace (snd (index_handler healthy (upload_of ''A'' ''data/f1'' ''one.txt'') ?w)) =
     [GetOrCreateCollection ''Damian_Ingested'',
      FeatureExtraction [''First.''], FeatureExtraction [''First.''],
      Upsert ''Damian_Ingested'' [''A-0''] [''First.''] [Vector [Fin 1, Fin 0]]
        [\<lparr>source = ''one.txt'', part = 0, ctx = ''A''\<rparr>]]"
    by (simp add: index_handler_def index_try_def index_store_def semanticChunking_def
        chunk_sentences_def getEmbeddings_def called_def merge_sentences_def
        cleanSentences_def sentence_matches.simps is_terminator_def trim_def is_space_def
        request_context_def tag_chunks_def indexed_def item_at_def decimal.simps digit_def
        Damian_Ingested_def healthy_def fresh_def upload_of_def unit_vectors_def)
  have t2: "trace (snd (upload_handler healthy (upload_of ''B'' ''data/f1'' ''one.txt'') ?w)) =
     [GetOrCreateCollection ''Damian_Ingested'',
      FeatureExtraction [''First.''], FeatureExtraction [''First.''],
      Upsert ''Damian_Ingested'' [''B-1700000000000-0''] [''First.''] [Vector [Fin 1, Fin 0]]
        [\<lparr>source = ''one.txt'', part = 0, ctx = ''B''\<rparr>]]"
    by (simp add: upload_handler_def upload_try_def upload_store_def semanticChunking_v3_def
        chunk_sentences_v3_def getEmbeddings_v3_def called_def merge_sentences_def
        cleanSentences_def sentence_matches.simps is_terminator_def trim_def is_space_def
        request_context_def tag_chunks_def indexed_def item_at_def decimal.simps digit_def
        Damian_Ingested_def healthy_def fresh_def upload_of_def unit_vectors_def Let_def)
  have t3: "trace (snd (query_handler one_hit (question_in ''A'' ''x'') (fresh []))) =
     [FeatureExtraction [''x''], GetOrCreateCollection ''Damian_Ingested'',
      Query ''Damian_Ingested'' (Vector [Fin 1, Fin 0]) 5 (Some ''A''),
      GenerateContent (''Use the following context to answer the question.'' @ NL @ NL
        @ ''Source: one.txt#0'' @ NL @ ''First.'' @ NL @ NL @ ''Question: x'' @ NL @ ''Answer:'')]"
    by (simp add: query_handler_def query_try_def query_collection_def query_answer_def
        getEmbeddings_def called_def where_filter_def retrieved_items_def indexed_def
        make_prompt_def block_separator_def NL_def item_at_def decimal.simps digit_def
        Damian_Ingested_def healthy_def one_hit_def fresh_def question_in_def unit_vectors_def)
  have t4: "trace (snd (chat_handler one_hit (question_in ''A'' ''x'') (fresh []))) =
     [FeatureExtraction [''x''], GetOrCreateCollection ''Damian_Ingested'',
      Query ''Damian_Ingested'' (Vector [Fin 1, Fin 0]) 5 (Some ''A''),
      GenerateContent (''Use the following context to answer the question.'' @ NL @ NL
        @ ''Source: one.txt'' @ NL @ ''First.'' @ NL @ NL @ ''Question: x'' @ NL @ ''Answer:'')]"
    by (simp add: chat_handler_def chat_try_def chat_answer_def
        getEmbeddings_v3_def called_def where_filter_def retrieved_items_def indexed_def
        make_prompt_def block_separator_def NL_def item_at_def
        Damian_Ingested_def healthy_def one_hit_def fresh_def question_in_def unit_vectors_def)
  have t5: "trace (snd (chat_handler healthy (question ''x'') (fresh []))) =
     [FeatureExtraction [''x''], GetOrCreateCollection ''Damian_Ingested'',
      Query ''Damian_Ingested'' (Vector [Fin 1, Fin 0]) 5 None]"
    by (simp add: chat_handler_def chat_try_def chat_answer_def getEmbeddings_v3_def called_def
        where_filter_def item_at_def Damian_Ingested_def healthy_def fresh_def question_def
        unit_vectors_def)
  note a = one_collection_for_all_contexts[where ireq = "upload_of ''A'' ''data/f1'' ''one.txt''"
      and e = healthy and w = ?w]
  note b = one_collection_for_all_contexts[where ireq = "upload_of ''B'' ''data/f1'' ''one.txt''"
      and e = healthy and w = ?w]
  note c = one_collection_for_all_contexts[where qreq = "question_in ''A'' ''x''"
      and e = one_hit and w = "fresh []"]
  note d = one_collection_for_all_contexts[where qreq = "question ''x''"
      and e = healthy and w = "fresh []"]
  have "extends (ingest_call_ok ''A'') ?w
        (snd (index_handler healthy (upload_of ''A'' ''data/f1'' ''one.txt'') ?w))"
    using a hA by blast
  moreover have "extends (ingest_call_ok ''B'') ?w
        (snd (upload_handler healthy (upload_of ''B'' ''data/f1'' ''one.txt'') ?w))"
    using b hB by blast
  moreover have "extends (query_call_ok (Some ''A'')) (fresh [])
        (snd (query_handler one_hit (question_in ''A'' ''x'') (fresh [])))"
    using c fA by simp
  moreover have "extends (query_call_ok (Some ''A'')) (fresh [])
        (snd (chat_handler one_hit (question_in ''A'' ''x'') (fresh [])))"
    using c fA by simp
  moreover have "extends (query_call_ok None) (fresh [])
        (snd (chat_handler healthy (question ''x'') (fresh [])))"
    using d fN by simp
  ultimately show ?thesis using t1 t2 t3 t4 t5 by simp
qed

section \<open>An empty file set\<close>

text \<open>
  C8. An ingestion request whose file set is missing or empty is answered with status 400
  and an error body, and the world is returned as it was: no call to the embedding service
  or to the store is added to the calls made, and no file is touched.
\<close>

theorem empty_file_set_rejected:
  assumes "files req = None \<or> files req = Some []"
  shows "index_handler e req w = (Response 400 (Error ''No files uploaded''), w)
       \<and> upload_handler e req w = (Response 400 (Error ''No files''), w)"
  using assms by (auto simp: index_handler_def upload_handler_def)


theorem empty_file_set_rejected_witness:
  "index_handler embedding_down \<lparr>files = Some [], context_header = Some ''A''\<rparr>
      (fresh [(''data/f1'', ''First.'')]) =
     (Response 400 (Error ''No files uploaded''), fresh [(''data/f1'', ''First.'')])
   \<and> upload_handler healthy \<lparr>files = None, context_header = None\<rparr> (fresh []) =
     (Response 400 (Error ''No files''), fresh [])"
  using empty_file_set_rejected[of "\<lparr>files = Some [], context_header = Some ''A''\<rparr>"
      embedding_down "fresh [(''data/f1'', ''First.'')]"]
    empty_file_set_rejected[of "\<lparr>files = None, context_header = None\<rparr>" healthy "fresh []"]
  by simp


section \<open>Where the servers depart from the specification\<close>

text \<open>
  C1 asks that the record ids of two ingestion calls under one context never meet. \<open>/index\<close>
  builds an id from the context and the position of the chunk alone: two calls under
  context \<open>A\<close>, one file of one sentence each, both upsert under the id \<open>A-0\<close>, and the
  second record replaces the first.
\<close>

theorem index_ids_collide:
  "trace (snd (index_handler healthy (upload_of ''A'' ''data/f2'' ''two.txt'')
          (snd (index_handler healthy (upload_of ''A'' ''data/f1'' ''one.txt'')
                  (fresh [(''data/f1'', ''First.''), (''data/f2'', ''Second.'')]))))) =
     [GetOrCreateCollection ''Damian_Ingested'',
      FeatureExtraction [''First.''], FeatureExtraction [''First.''],
      Upsert ''Damian_Ingested'' [''A-0''] [''First.''] [Vector [Fin 1, Fin 0]]
        [\<lparr>source = ''one.txt'', part = 0, ctx = ''A''\<rparr>],
      GetOrCreateCollection ''Damian_Ingested'',
      FeatureExtraction [''Second.''], FeatureExtraction [''Second.''],
      Upsert ''Damian_Ingested'' [''A-0''] [''Second.''] [Vector [Fin 1, Fin 0]]
        [\<lparr>source = ''two.txt'', part = 0, ctx = ''A''\<rparr>]]"
  by (simp add: index_handler_def index_try_def index_store_def semanticChunking_def
        chunk_sentences_def getEmbeddings_def called_def merge_sentences_def
        cleanSentences_def sentence_matches.simps is_terminator_def trim_def is_space_def
        request_context_def tag_chunks_def indexed_def item_at_def decimal.simps digit_def
        Damian_Ingested_def healthy_def fresh_def upload_of_def unit_vectors_def Let_def)

text \<open>\<open>/upload\<close> puts the clock reading between context and position; two calls that read
  the same millisecond still build the same id.\<close>

lemma upload_ids_collide_in_one_millisecond:
  "trace (snd (upload_handler healthy (upload_of ''A'' ''data/f2'' ''two.txt'')
          (snd (upload_handler healthy (upload_of ''A'' ''data/f1'' ''one.txt'')
                  (fresh [(''data/f1'', ''First.''), (''data/f2'', ''Second.'')]))))) =
     [GetOrCreateCollection ''Damian_Ingested'',
      FeatureExtraction [''First.''], FeatureExtraction [''First.''],
      Upsert ''Damian_Ingested'' [''A-1700000000000-0''] [''First.''] [Vector [Fin 1, Fin 0]]
        [\<lparr>source = ''one.txt'', part = 0, ctx = ''A''\<rparr>],
      GetOrCreateCollection ''Damian_Ingested'',
      FeatureExtraction [''Second.''], FeatureExtraction [''Second.''],
      Upsert ''Damian_Ingested'' [''A-1700000000000-0''] [''Second.''] [Vector [Fin 1, Fin 0]]
        [\<lparr>source = ''two.txt'', part = 0, ctx = ''A''\<rparr>]]"
  by (simp add: upload_handler_def upload_try_def upload_store_def semanticChunking_v3_def
        chunk_sentences_v3_def getEmbeddings_v3_def called_def merge_sentences_def
        cleanSentences_def sentence_matches.simps is_terminator_def trim_def is_space_def
        request_context_def tag_chunks_def indexed_def item_at_def decimal.simps digit_def
        Damian_Ingested_def healthy_def fresh_def upload_of_def unit_vectors_def Let_def)

text \<open>
  C3 asks that the sentences hold every code unit of the text that is not white space.
  The pattern only matches a run that a terminator ends: of \<open>Hi. Yo\<close> the segmenter keeps
  \<open>Hi.\<close> and drops \<open>Yo\<close>.
\<close>

theorem segmenter_drops_unterminated_tail:
  "cleanSentences ''Hi. Yo'' = [''Hi.''] \<and>
   non_space (concat (cleanSentences ''Hi. Yo'')) = ''Hi.'' \<and>
   non_space ''Hi. Yo'' = ''Hi.Yo''"
  by (simp add: cleanSentences_def sentence_matches.simps is_terminator_def trim_def
      is_space_def non_space_def)

text \<open>
  C6 asks that every staged file is deleted on every way out of an ingestion. Both
  servers delete a file at the end of its pass of the loop and nowhere else: when the
  embedding service refuses the chunker's call, the request ends with status 500 and the
  staged file is still on disk.
\<close>

theorem failed_ingest_leaves_staged_file:
  "fst (index_handler embedding_down (upload_of ''A'' ''data/f1'' ''one.txt'')
          (fresh [(''data/f1'', ''First.'')])) = Response 500 (Error ''quota exceeded'')
   \<and> disk (snd (index_handler embedding_down (upload_of ''A'' ''data/f1'' ''one.txt'')
          (fresh [(''data/f1'', ''First.'')]))) ''data/f1'' = Some ''First.''
   \<and> fst (upload_handler embedding_down (upload_of ''A'' ''data/f1'' ''one.txt'')
          (fresh [(''data/f1'', ''First.'')])) = Response 500 (Error ''quota exceeded'')
   \<and> disk (snd (upload_handler embedding_down (upload_of ''A'' ''data/f1'' ''one.txt'')
          (fresh [(''data/f1'', ''First.'')]))) ''data/f1'' = Some ''First.''"
  by (simp add: index_handler_def index_try_def semanticChunking_def chunk_sentences_def
      getEmbeddings_def upload_handler_def upload_try_def semanticChunking_v3_def
      chunk_sentences_v3_def getEmbeddings_v3_def called_def
      cleanSentences_def sentence_matches.simps is_terminator_def trim_def is_space_def
      request_context_def Damian_Ingested_def healthy_def embedding_down_def fresh_def
      upload_of_def)

text \<open>On the way out with status 200 the files of the request are gone: \<open>/index\<close> deletes
  each file behind its chunking, and nothing puts a file back.\<close>

lemma index_files_only_deletes:
  "index_files e c fs acc w = (r, w') \<Longrightarrow> disk w p = None \<Longrightarrow> disk w' p = None"
proof (induction fs arbitrary: acc w)
  case Nil
  then show ?case by simp
next
  case (Cons f fs)
  show ?case
  proof (cases "disk w (path f)")
    case None
    with Cons.prems show ?thesis by simp
  next
    case (Some content)
    obtain r1 w1 where sc: "semanticChunking e content (CHUNK_THRESHOLD e) w = (r1, w1)"
      by (cases "semanticChunking e content (CHUNK_THRESHOLD e) w")
    have d1: "disk w1 = disk w" using semanticChunking_frame[OF sc] by simp
    show ?thesis
    proof (cases r1)
      case (Inl err)
      with Cons.prems Some sc d1 show ?thesis by simp
    next
      case (Inr cs)
      let ?w2 = "w1\<lparr>disk := (disk w1)((path f) := None)\<rparr>"
      from Cons.prems(1) Some sc Inr d1
      have rec: "index_files e c fs (acc @ tag_chunks (originalname f) c cs) ?w2 = (r, w')"
        by simp
      have "disk ?w2 p = None" using Cons.prems(2) d1 by simp
      with rec show ?thesis by (rule Cons.IH)
    qed
  qed
qed

lemma index_files_deletes:
  "index_files e c fs acc w = (Inr staged, w') \<Longrightarrow> \<forall>f\<in>set fs. disk w' (path f) = None"
proof (induction fs arbitrary: acc w)
  case Nil
  then show ?case by simp
next
  case (Cons f fs)
  from Cons.prems obtain cs w1 where
    rec: "index_files e c fs (acc @ tag_chunks (originalname f) c cs)
        (w1\<lparr>disk := (disk w1)((path f) := None)\<rparr>) = (Inr staged, w')"
    by (auto split: option.splits prod.splits sum.splits)
  have "disk w' (path f) = None"
    by (rule index_files_only_deletes[OF rec]) simp
  moreover have "\<forall>f\<in>set fs. disk w' (path f) = None" using rec by (rule Cons.IH)
  ultimately show ?case by simp
qed

lemma index_store_frame: "index_store e c staged w = (r, w') \<Longrightarrow> disk w' = disk w"
  by (auto simp: index_store_def Let_def called_def
      split: prod.splits sum.splits option.splits dest: getEmbeddings_frame)

lemma index_handler_success_deletes:
  assumes "index_handler e req w = (Response 200 b, w')" and "files req = Some fs"
  shows "\<forall>f\<in>set fs. disk w' (path f) = None"
proof -
  from assms obtain staged w1 w2 where
    fl: "index_files e (request_context e req) fs [] w1 = (Inr staged, w2)" and
    st: "index_store e (request_context e req) staged w2 = (Inr (Response 200 b), w')"
    by (auto simp: index_handler_def index_try_def Let_def
        split: if_splits prod.splits sum.splits option.splits)
  from st have "disk w' = disk w2" by (rule index_store_frame)
  with index_files_deletes[OF fl] show ?thesis by simp
qed

text \<open>
  C7 asks that a query whose search finds nothing sends the fixed answer and does not
  call the generation service. \<open>/chat\<close> does so; \<open>/query\<close> builds a prompt with an empty
  context, calls the generation service and sends its answer.
\<close>

theorem query_generates_on_empty_result:
  "query_handler healthy (question ''x'') (fresh []) =
     (Response 200 (Answer ''I cannot tell.'' []),
      \<lparr>disk = Map.empty, console_log = NativeLog, collection = Some ''Damian_Ingested'',
       trace = [FeatureExtraction [''x''], GetOrCreateCollection ''Damian_Ingested'',
                Query ''Damian_Ingested'' (Vector [Fin 1, Fin 0]) 5 None,
                GenerateContent (''Use the following context to answer the question.''
                   @ NL @ NL @ NL @ NL @ ''Question: x'' @ NL @ ''Answer:'')]\<rparr>)
   \<and> chat_handler healthy (question ''x'') (fresh []) =
     (Response 200 (Answer ''No matching documents found.'' []),
      \<lparr>disk = Map.empty, console_log = NativeLog, collection = None,
       trace = [FeatureExtraction [''x''], GetOrCreateCollection ''Damian_Ingested'',
                Query ''Damian_Ingested'' (Vector [Fin 1, Fin 0]) 5 None]\<rparr>)"
  by (simp add: query_handler_def query_try_def query_collection_def query_answer_def
      chat_handler_def chat_try_def chat_answer_def getEmbeddings_def getEmbeddings_v3_def
      called_def where_filter_def retrieved_items_def indexed_def make_prompt_def
      block_separator_def NL_def item_at_def Damian_Ingested_def healthy_def fresh_def
      question_def unit_vectors_def)

text \<open>For every reply without a document: \<open>/chat\<close> answers at once and calls nothing,
  \<open>/query\<close> goes on to the generation service with the prompt of an empty context.\<close>

lemma chat_answer_empty:
  "documents result = [] \<Longrightarrow>
     chat_answer e qq result w = (Inr (Response 200 (Answer ''No matching documents found.'' [])), w)"
  by (simp add: chat_answer_def)

lemma query_answer_empty:
  "documents result = [] \<Longrightarrow>
     snd (query_answer e qq result w) = called (GenerateContent (make_prompt [] qq)) w"
  by (simp add: query_answer_def retrieved_items_def indexed_def Let_def split: sum.splits)

text \<open>
  C9 asks that \<open>console.log\<close> is put back on every way out of the embedding client. The
  first server puts it back behind the \<open>await\<close> only: when the embedding service
  refuses the call, \<open>console.log\<close> stays the function that prints nothing.
\<close>

theorem console_log_stays_silenced:
  "getEmbeddings embedding_down [''x''] (fresh []) =
     (Inl (EmbeddingFailure ''quota exceeded''),
      \<lparr>disk = Map.empty, console_log = Silenced, collection = None,
       trace = [FeatureExtraction [''x'']]\<rparr>)
   \<and> console_log (fresh []) = NativeLog"
  by (simp add: getEmbeddings_def called_def embedding_down_def healthy_def fresh_def)

text \<open>The binding is put back exactly when the embedding call returns.\<close>

lemma getEmbeddings_restores_on_success:
  "getEmbeddings e texts w = (Inr resp, w') \<Longrightarrow> console_log w' = console_log w"
  by (auto simp: getEmbeddings_def Let_def called_def split: sum.splits)

lemma getEmbeddings_silenced_on_failure:
  "getEmbeddings e texts w = (Inl err, w') \<Longrightarrow> console_log w' = Silenced"
  by (auto simp: getEmbeddings_def Let_def called_def split: sum.splits)

end
